theory Spec2Isabelle
  imports Main "HOL-Library.Sublist"
begin

section \<open>Redirect resolution: \<^verbatim>\<open>httpcore/adapters/redirects.py\<close>\<close>

subsection \<open>Data model\<close>

text \<open>
  The exceptions that \<^verbatim>\<open>RedirectAdapter\<close> raises. \<open>KeyError\<close> is what
  \<^verbatim>\<open>response.headers["Location"]\<close> raises when the header is absent.
\<close>

datatype error = TooManyRedirects | RedirectLoop | RedirectBodyUnavailable | KeyError

text \<open>
  Modelled from the spec: class \<^verbatim>\<open>URL\<close> of \<^verbatim>\<open>httpcore/models.py\<close> is not part of the
  source at hand. The spec describes a URL as scheme, authority, path with query, and
  fragment, and its origin as the triple of scheme, host and port.
\<close>

record url =
  scheme :: string
  host :: string
  port :: int
  full_path :: string
  fragment :: string

definition origin :: "url \<Rightarrow> string \<times> string \<times> int" where
  "origin u = (scheme u, host u, port u)"

text \<open>
  Modelled from the spec: class \<^verbatim>\<open>Headers\<close> of \<^verbatim>\<open>httpcore/models.py\<close> is not part of
  the source at hand. The spec describes it as an ordered, case-insensitive multimap with
  deletion by name: a list of name and value pairs, compared on lower-cased names.
  Reading a name joins the values of all its entries with a comma, and fails with
  \<open>KeyError\<close> when there is none; deleting a name removes all its entries.
\<close>

type_synonym headers = "(string \<times> string) list"

definition lower_char :: "char \<Rightarrow> char" where
  "lower_char c =
     (case map_of (zip ''ABCDEFGHIJKLMNOPQRSTUVWXYZ'' ''abcdefghijklmnopqrstuvwxyz'') c of
        Some d \<Rightarrow> d
      | None \<Rightarrow> c)"

definition lower :: "string \<Rightarrow> string" where
  "lower s = map lower_char s"

definition has_name :: "string \<Rightarrow> string \<times> string \<Rightarrow> bool" where
  "has_name key kv = (lower (fst kv) = lower key)"

fun str_join :: "string \<Rightarrow> string list \<Rightarrow> string" where
  "str_join sep [] = []"
| "str_join sep [x] = x"
| "str_join sep (x # y # ys) = x @ sep @ str_join sep (y # ys)"

definition getitem :: "headers \<Rightarrow> string \<Rightarrow> error + string" where
  "getitem hs key =
     (let items = map snd (filter (has_name key) hs)
      in if items = [] then Inl KeyError else Inr (str_join '', '' items))"

definition delitem :: "headers \<Rightarrow> string \<Rightarrow> headers" where
  "delitem hs key = filter (\<lambda>kv. \<not> has_name key kv) hs"

text \<open>
  A request body is either a byte string or a stream that cannot be replayed
  (\<^verbatim>\<open>request.is_streaming\<close>); a request built by \<^verbatim>\<open>build_redirect_request\<close> always
  carries bytes.
\<close>

type_synonym bytes = string

datatype content = Bytes bytes | Streaming

record request =
  "method" :: string
  url :: url
  headers :: headers
  body :: content

definition is_streaming :: "request \<Rightarrow> bool" where
  "is_streaming r = (body r = Streaming)"

text \<open>
  What the transport hands back: status code, headers and the redirect classification,
  which belongs to the \<^verbatim>\<open>Response\<close> class and is taken as given.
\<close>

record reply =
  status_code :: int
  reply_headers :: headers
  is_redirect :: bool

text \<open>
  Modelled from the spec: \<^verbatim>\<open>codes\<close> of \<^verbatim>\<open>httpcore/status_codes.py\<close> is not part of the
  source at hand; the spec names 303 as "see other", 302 as "found" and 301 as "moved
  permanently".
\<close>

definition see_other :: int where "see_other = 303"
definition found :: int where "found = 302"
definition moved_permanently :: int where "moved_permanently = 301"

subsection \<open>Request transformation rules\<close>

text \<open>
  \<^verbatim>\<open>redirect_method\<close>: three assignments to the local \<^verbatim>\<open>method\<close>, each guarded by a
  test that reads the value the previous ones left.
\<close>

definition redirect_method :: "request \<Rightarrow> reply \<Rightarrow> string" where
  "redirect_method req resp =
     (let m = method req;
          m = (if status_code resp = see_other \<and> m \<noteq> ''HEAD'' then ''GET'' else m);
          m = (if status_code resp = found \<and> m \<noteq> ''HEAD'' then ''GET'' else m);
          m = (if status_code resp = moved_permanently \<and> m = ''POST'' then ''GET'' else m)
      in m)"

text \<open>
  The URL primitives that \<^verbatim>\<open>redirect_url\<close> calls are not part of the source at hand
  (\<^verbatim>\<open>urlparse\<close> and \<^verbatim>\<open>urljoin\<close> of the standard library, \<^verbatim>\<open>requote_uri\<close> of
  \<^verbatim>\<open>httpcore/utils.py\<close>, the constructor and \<^verbatim>\<open>str\<close> of \<^verbatim>\<open>URL\<close>); they are
  parameters of the model. \<open>parse_result\<close> is the named tuple that \<^verbatim>\<open>urlparse\<close>
  returns.
\<close>

record parse_result =
  p_scheme :: string
  p_netloc :: string
  p_path :: string
  p_params :: string
  p_query :: string
  p_fragment :: string

record urllib =
  urlparse :: "string \<Rightarrow> parse_result"
  geturl :: "parse_result \<Rightarrow> string"
  urljoin :: "string \<Rightarrow> string \<Rightarrow> string"
  requote_uri :: "string \<Rightarrow> string"
  URL :: "string \<Rightarrow> url"
  url_str :: "url \<Rightarrow> string"

definition redirect_url :: "urllib \<Rightarrow> request \<Rightarrow> reply \<Rightarrow> error + url" where
  "redirect_url U req resp =
     (case getitem (reply_headers resp) ''Location'' of
        Inl e \<Rightarrow> Inl e
      | Inr location \<Rightarrow>
          (let location = (if take 2 location = ''//''
                          then scheme (url req) @ '':'' @ location else location);
              parsed = urlparse U location;
              parsed = (if p_fragment parsed = '''' \<and> fragment (url req) \<noteq> ''''
                        then parsed\<lparr>p_fragment := fragment (url req)\<rparr> else parsed);
              u = geturl U parsed;
              u = (if p_netloc parsed = ''''
                   then urljoin U (url_str U (url req)) (requote_uri U u)
                   else requote_uri U u)
           in Inr (URL U u)))"

definition redirect_headers :: "request \<Rightarrow> url \<Rightarrow> headers" where
  "redirect_headers req u =
     (let hs = headers req
      in if origin u \<noteq> origin (url req) then delitem hs ''Authorization'' else hs)"

definition redirect_body :: "request \<Rightarrow> string \<Rightarrow> error + bytes" where
  "redirect_body req m =
     (if m \<noteq> method req \<and> m = ''GET'' then Inr ''''
      else if is_streaming req then Inl RedirectBodyUnavailable
      else (case body req of Bytes b \<Rightarrow> Inr b | Streaming \<Rightarrow> Inl RedirectBodyUnavailable))"

definition build_redirect_request :: "urllib \<Rightarrow> request \<Rightarrow> reply \<Rightarrow> error + request" where
  "build_redirect_request U req resp =
     (let m = redirect_method req resp
      in case redirect_url U req resp of
           Inl e \<Rightarrow> Inl e
         | Inr u \<Rightarrow>
             (let hs = redirect_headers req u
              in (case redirect_body req m of
                    Inl e \<Rightarrow> Inl e
                  | Inr b \<Rightarrow> Inr \<lparr>method = m, url = u, headers = hs, body = Bytes b\<rparr>)))"

subsection \<open>The rules in the words of the specification\<close>

text \<open>
  The method rule as the specification words it: an ordered list of cases on the status
  code and the method of the current request.
\<close>

definition redirect_method_spec :: "string \<Rightarrow> int \<Rightarrow> string" where
  "redirect_method_spec m s =
     (if s = 303 \<and> m \<noteq> ''HEAD'' then ''GET''
      else if s = 302 \<and> m \<noteq> ''HEAD'' then ''GET''
      else if s = 301 \<and> m = ''POST'' then ''GET''
      else m)"

text \<open>
  The redirect target: the value of the Location header, prefixed with the scheme of the
  current request when it starts with two slashes, parsed, with the fragment of the
  current request filled in when it has none of its own.
\<close>

definition redirect_target :: "urllib \<Rightarrow> request \<Rightarrow> string \<Rightarrow> parse_result" where
  "redirect_target U req location =
     (let parsed = urlparse U (if take 2 location = ''//''
                               then scheme (url req) @ '':'' @ location else location)
      in if p_fragment parsed = '''' \<and> fragment (url req) \<noteq> ''''
         then parsed\<lparr>p_fragment := fragment (url req)\<rparr> else parsed)"

definition is_authorization :: "string \<times> string \<Rightarrow> bool" where
  "is_authorization kv = (lower (fst kv) = ''authorization'')"

subsection \<open>Header objects\<close>

text \<open>
  \<^verbatim>\<open>redirect_headers\<close> builds a new \<^verbatim>\<open>Headers\<close> object from \<^verbatim>\<open>request.headers\<close> and
  deletes from the new object in place. To tell the two objects apart, header objects
  live in a store indexed by address.

  Modelled from the spec: the constructor of \<^verbatim>\<open>Headers\<close> is not part of the source at
  hand; the spec says that the headers of the current request are copied, so the
  constructor yields a new object holding the entries of its argument.
\<close>

record header_store =
  objs :: "nat \<Rightarrow> headers"
  n_objs :: nat

definition Headers :: "nat \<Rightarrow> header_store \<Rightarrow> nat \<times> header_store" where
  "Headers a st =
     (n_objs st, st\<lparr>objs := (objs st)(n_objs st := objs st a), n_objs := Suc (n_objs st)\<rparr>)"

definition delitem_obj :: "nat \<Rightarrow> string \<Rightarrow> header_store \<Rightarrow> header_store" where
  "delitem_obj a key st = st\<lparr>objs := (objs st)(a := delitem (objs st a) key)\<rparr>"

text \<open>
  \<^verbatim>\<open>redirect_headers\<close> on objects: \<open>a\<close> is the address of \<^verbatim>\<open>request.headers\<close>; the
  result is the address of the headers for the next request.
\<close>

definition redirect_headers_obj ::
  "request \<Rightarrow> nat \<Rightarrow> url \<Rightarrow> header_store \<Rightarrow> nat \<times> header_store"
where
  "redirect_headers_obj req a u st =
     (case Headers a st of (hs, st) \<Rightarrow>
        if origin u \<noteq> origin (url req) then (hs, delitem_obj hs ''Authorization'' st)
        else (hs, st))"

subsection \<open>Objects that the controller creates and mutates\<close>

text \<open>
  \<^verbatim>\<open>send\<close> mutates a history list and a set of seen URLs that outlive the call (the
  partial application stored in \<^verbatim>\<open>response.next\<close> holds references to both), and it
  assigns attributes of response objects that the history list refers to. These objects
  live in stores indexed by address; a new object takes the next free address.

  A response object holds what the transport returned, the list object assigned to
  \<^verbatim>\<open>response.history\<close> and the partial application assigned to \<^verbatim>\<open>response.next\<close>.
  The latter records the keyword arguments that \<^verbatim>\<open>functools.partial\<close> binds: the next
  request and the references \<^verbatim>\<open>seen_urls\<close> and \<^verbatim>\<open>history\<close>.
\<close>

record partial =
  p_request :: request
  p_seen_urls :: nat
  p_history :: nat

record response =
  received :: reply
  history :: "nat option"
  resp_next :: "partial option"

record world =
  resps :: "nat \<Rightarrow> response"
  n_resps :: nat
  lists :: "nat \<Rightarrow> nat list"
  n_lists :: nat
  sets :: "nat \<Rightarrow> url set"
  n_sets :: nat
  sent :: "request list"

text \<open>
  The transport (\<^verbatim>\<open>self.dispatch\<close>) is a parameter: its reply may depend on the request
  and on everything sent to it before. Each reply is a new response object. The log
  \<open>sent\<close> records the requests handed to the transport, in order.
\<close>

type_synonym dispatch = "request list \<Rightarrow> request \<Rightarrow> reply"

definition dispatch_send :: "dispatch \<Rightarrow> request \<Rightarrow> world \<Rightarrow> nat \<times> world" where
  "dispatch_send D req w =
     (n_resps w,
      w\<lparr>resps := (resps w)(n_resps w :=
            \<lparr>received = D (sent w) req, history = None, resp_next = None\<rparr>),
        n_resps := Suc (n_resps w),
        sent := sent w @ [req]\<rparr>)"

definition new_list :: "nat list \<Rightarrow> world \<Rightarrow> nat \<times> world" where
  "new_list xs w = (n_lists w, w\<lparr>lists := (lists w)(n_lists w := xs), n_lists := Suc (n_lists w)\<rparr>)"

definition new_set :: "url set \<Rightarrow> world \<Rightarrow> nat \<times> world" where
  "new_set xs w = (n_sets w, w\<lparr>sets := (sets w)(n_sets w := xs), n_sets := Suc (n_sets w)\<rparr>)"

definition set_history :: "nat \<Rightarrow> nat \<Rightarrow> world \<Rightarrow> world" where
  "set_history r l w = w\<lparr>resps := (resps w)(r := (resps w r)\<lparr>history := Some l\<rparr>)\<rparr>"

definition set_next :: "nat \<Rightarrow> partial \<Rightarrow> world \<Rightarrow> world" where
  "set_next r p w = w\<lparr>resps := (resps w)(r := (resps w r)\<lparr>resp_next := Some p\<rparr>)\<rparr>"

definition list_append :: "nat \<Rightarrow> nat \<Rightarrow> world \<Rightarrow> world" where
  "list_append l r w = w\<lparr>lists := (lists w)(l := lists w l @ [r])\<rparr>"

definition set_add :: "nat \<Rightarrow> url \<Rightarrow> world \<Rightarrow> world" where
  "set_add s u w = w\<lparr>sets := (sets w)(s := insert u (sets w s))\<rparr>"

subsection \<open>The controller: \<^verbatim>\<open>RedirectAdapter.send\<close>\<close>

text \<open>
  One pass of the \<^verbatim>\<open>while True\<close> loop up to the test of \<^verbatim>\<open>response.is_redirect\<close>: the
  transport call and \<^verbatim>\<open>response.history = list(history)\<close>, where \<^verbatim>\<open>list\<close> makes a new
  list object.
\<close>

definition receive :: "dispatch \<Rightarrow> request \<Rightarrow> nat \<Rightarrow> world \<Rightarrow> nat \<times> world" where
  "receive D req hist w =
     (case dispatch_send D req w of (r, w) \<Rightarrow>
      case new_list (lists w hist) w of (l, w) \<Rightarrow>
        (r, set_history r l w))"

function send_loop ::
  "dispatch \<Rightarrow> urllib \<Rightarrow> int \<Rightarrow> bool \<Rightarrow> request \<Rightarrow> nat \<Rightarrow> nat \<Rightarrow> world \<Rightarrow> (error + nat) \<times> world"
where
  "send_loop D U max_redirects allow_redirects req hist seen_urls w =
     (case receive D req hist w of (r, w) \<Rightarrow>
        if \<not> is_redirect (received (resps w r)) then (Inr r, w)
        else
          (case (build_redirect_request U req (received (resps w r)), list_append hist r w) of
             (Inl e, w) \<Rightarrow> (Inl e, w)
           | (Inr req', w) \<Rightarrow>
               if \<not> allow_redirects
               then (Inr r, set_next r \<lparr>p_request = req', p_seen_urls = seen_urls,
                                       p_history = hist\<rparr> w)
               else if int (length (lists w hist)) > max_redirects
               then (Inl TooManyRedirects, w)
               else if url req' \<in> sets w seen_urls then (Inl RedirectLoop, w)
               else send_loop D U max_redirects allow_redirects req' hist seen_urls
                      (set_add seen_urls (url req') w)))"
  by pat_completeness auto
termination
  by (relation "measure (\<lambda>(D, U, max_redirects, allow_redirects, req, hist, seen_urls, w).
                   nat (max_redirects - int (length (lists w hist))))")
     (auto simp: receive_def dispatch_send_def new_list_def set_history_def list_append_def
        set_add_def)

declare send_loop.simps [simp del]

text \<open>
  The keyword arguments that \<^verbatim>\<open>send\<close> pops from \<^verbatim>\<open>options\<close>, each absent or given.
  The remaining options are handed to the transport unchanged and are left out.
\<close>

record options =
  opt_allow_redirects :: "bool option"
  opt_history :: "nat option"
  opt_seen_urls :: "nat option"

definition send ::
  "dispatch \<Rightarrow> urllib \<Rightarrow> int \<Rightarrow> options \<Rightarrow> request \<Rightarrow> world \<Rightarrow> (error + nat) \<times> world"
where
  "send D U max_redirects opts req w =
     (let allow_redirects = (case opt_allow_redirects opts of None \<Rightarrow> True | Some b \<Rightarrow> b)
      in case (case opt_history opts of None \<Rightarrow> new_list [] w | Some h \<Rightarrow> (h, w)) of
           (hist, w) \<Rightarrow>
         (case (case opt_seen_urls opts of None \<Rightarrow> new_set {} w | Some s \<Rightarrow> (s, w)) of
            (seen_urls, w) \<Rightarrow>
              send_loop D U max_redirects allow_redirects req hist seen_urls
                (set_add seen_urls (url req) w)))"

text \<open>
  Calling \<^verbatim>\<open>response.next\<close>: \<^verbatim>\<open>functools.partial\<close> calls \<^verbatim>\<open>self.send\<close> with the bound
  keyword arguments, to which the caller may add \<^verbatim>\<open>allow_redirects\<close>. The bound
  arguments do not include \<^verbatim>\<open>allow_redirects\<close>, which \<^verbatim>\<open>send\<close> popped from
  \<^verbatim>\<open>options\<close> before \<^verbatim>\<open>next_options\<close> was copied from it.
\<close>

definition call_next ::
  "dispatch \<Rightarrow> urllib \<Rightarrow> int \<Rightarrow> partial \<Rightarrow> bool option \<Rightarrow> world \<Rightarrow> (error + nat) \<times> world"
where
  "call_next D U max_redirects p allow w =
     send D U max_redirects
       \<lparr>opt_allow_redirects = allow, opt_history = Some (p_history p),
        opt_seen_urls = Some (p_seen_urls p)\<rparr>
       (p_request p) w"

subsection \<open>Reading the stores\<close>

text \<open>The contents of \<^verbatim>\<open>response.history\<close>, when it has been assigned.\<close>

definition history_of :: "world \<Rightarrow> nat \<Rightarrow> nat list option" where
  "history_of w r = map_option (lists w) (history (resps w r))"

text \<open>
  The state of a chain whose accumulated history is the list object \<open>h\<close>: every response
  in the accumulated history has a history list of its own, a list object other than
  \<open>h\<close> that holds the responses before it.
\<close>

definition chain_inv :: "world \<Rightarrow> nat \<Rightarrow> bool" where
  "chain_inv w h \<longleftrightarrow>
     h < n_lists w \<and>
     (\<forall>i \<in> set [0..<length (lists w h)].
        lists w h ! i < n_resps w \<and>
        (case history (resps w (lists w h ! i)) of
           None \<Rightarrow> False
         | Some l \<Rightarrow> l < n_lists w \<and> l \<noteq> h \<and> lists w l = take i (lists w h)))"

text \<open>
  What a run of the controller keeps of a world in which \<open>h\<close> is the accumulated
  history: the objects that exist stay, no response gets another history list, and no
  list other than \<open>h\<close> changes.
\<close>

definition frame :: "world \<Rightarrow> world \<Rightarrow> nat \<Rightarrow> bool" where
  "frame w w' h \<longleftrightarrow>
     n_lists w \<le> n_lists w' \<and> n_resps w \<le> n_resps w' \<and>
     (\<forall>r < n_resps w. history (resps w' r) = history (resps w r)) \<and>
     (\<forall>l < n_lists w. l \<noteq> h \<longrightarrow> lists w' l = lists w l)"

text \<open>
  What \<^verbatim>\<open>build_redirect_request\<close> gives for the last request sent and the last
  response in the list \<open>h\<close>: when a run with accumulated history \<open>h\<close> ends after a
  redirect, these are the request and the response of its last pass.
\<close>

definition last_build :: "urllib \<Rightarrow> world \<Rightarrow> nat \<Rightarrow> error + request" where
  "last_build U w h =
     build_redirect_request U (last (sent w)) (received (resps w (last (lists w h))))"

text \<open>What a caller sees of a result: the error, or status code and whether
  \<^verbatim>\<open>response.next\<close> is set.\<close>

definition outcome :: "(error + nat) \<times> world \<Rightarrow> error + int \<times> bool" where
  "outcome x =
     (case x of
        (Inl e, w) \<Rightarrow> Inl e
      | (Inr r, w) \<Rightarrow> Inr (status_code (received (resps w r)), resp_next (resps w r) \<noteq> None))"

text \<open>The world with \<^verbatim>\<open>response.next\<close> of one response reset.\<close>

definition forget_next :: "nat \<Rightarrow> world \<Rightarrow> world" where
  "forget_next r w = w\<lparr>resps := (resps w)(r := (resps w r)\<lparr>resp_next := None\<rparr>)\<rparr>"

text \<open>
  Two worlds that differ at most in \<^verbatim>\<open>response.next\<close> of their responses.
\<close>

definition same_but_next :: "world \<Rightarrow> world \<Rightarrow> bool" where
  "same_but_next w1 w2 \<longleftrightarrow>
     n_resps w1 = n_resps w2 \<and> lists w1 = lists w2 \<and> n_lists w1 = n_lists w2 \<and>
     sets w1 = sets w2 \<and> n_sets w1 = n_sets w2 \<and> sent w1 = sent w2 \<and>
     (\<forall>a. received (resps w1 a) = received (resps w2 a) \<and>
          history (resps w1 a) = history (resps w2 a))"

text \<open>
  A caller that steps through a chain by hand: as long as the response it holds has a
  continuation, it calls \<^verbatim>\<open>response.next(allow_redirects=False)\<close>, at most \<open>n\<close> times. The
  result is the list of responses it went through and what the last call gave.
\<close>

fun resume ::
  "dispatch \<Rightarrow> urllib \<Rightarrow> int \<Rightarrow> nat \<Rightarrow> (error + nat) \<times> world \<Rightarrow> nat list \<times> (error + nat) \<times> world"
where
  "resume D U mx 0 x = ([], x)"
| "resume D U mx (Suc n) (Inl e, w) = ([], Inl e, w)"
| "resume D U mx (Suc n) (Inr r, w) =
     (case resp_next (resps w r) of
        None \<Rightarrow> ([], Inr r, w)
      | Some p \<Rightarrow>
          (case resume D U mx n (call_next D U mx p (Some False) w) of
             (rs, x) \<Rightarrow> (r # rs, x)))"

subsection \<open>Stand-ins for the collaborators\<close>

text \<open>
  To run the model on concrete requests, the parameters need values. The functions below
  are small stand-ins for the URL primitives: they handle URLs of the shape
  \<^verbatim>\<open>scheme://host/path#fragment\<close> and relative paths, and \<open>demo_requote_uri\<close> only
  encodes spaces. On the URLs of the examples below they return what the real primitives
  return.
\<close>

definition demo_urlparse :: "string \<Rightarrow> parse_result" where
  "demo_urlparse s =
     (let rest = takeWhile (\<lambda>c. c \<noteq> CHR ''#'') s;
          frag = drop 1 (dropWhile (\<lambda>c. c \<noteq> CHR ''#'') s);
          sch = takeWhile (\<lambda>c. c \<noteq> CHR '':'' \<and> c \<noteq> CHR ''/'') rest;
          after = drop (length sch) rest
      in if take 3 after = ''://''
         then \<lparr>p_scheme = sch, p_netloc = takeWhile (\<lambda>c. c \<noteq> CHR ''/'') (drop 3 after),
               p_path = dropWhile (\<lambda>c. c \<noteq> CHR ''/'') (drop 3 after),
               p_params = '''', p_query = '''', p_fragment = frag\<rparr>
         else \<lparr>p_scheme = '''', p_netloc = '''', p_path = rest,
               p_params = '''', p_query = '''', p_fragment = frag\<rparr>)"

definition demo_geturl :: "parse_result \<Rightarrow> string" where
  "demo_geturl p =
     (if p_scheme p = '''' then '''' else p_scheme p @ ''://'' @ p_netloc p) @ p_path p @
     (if p_fragment p = '''' then '''' else ''#'' @ p_fragment p)"

definition demo_urljoin :: "string \<Rightarrow> string \<Rightarrow> string" where
  "demo_urljoin base ref =
     (let b = demo_urlparse base; r = demo_urlparse ref
      in if p_scheme r \<noteq> '''' then ref
         else if take 1 (p_path r) = ''/''
         then demo_geturl (b\<lparr>p_path := p_path r, p_fragment := p_fragment r\<rparr>)
         else demo_geturl (b\<lparr>p_path := rev (dropWhile (\<lambda>c. c \<noteq> CHR ''/'') (rev (p_path b)))
                                        @ p_path r,
                              p_fragment := p_fragment r\<rparr>))"

definition demo_requote_uri :: "string \<Rightarrow> string" where
  "demo_requote_uri s = concat (map (\<lambda>c. if c = CHR '' '' then ''%20'' else [c]) s)"

definition demo_URL :: "string \<Rightarrow> url" where
  "demo_URL s =
     (let p = demo_urlparse s
      in \<lparr>scheme = p_scheme p, host = p_netloc p,
          port = (if p_scheme p = ''https'' then 443 else 80),
          full_path = p_path p, fragment = p_fragment p\<rparr>)"

definition demo_str :: "url \<Rightarrow> string" where
  "demo_str u =
     scheme u @ ''://'' @ host u @ full_path u @
     (if fragment u = '''' then '''' else ''#'' @ fragment u)"

definition demo :: urllib where
  "demo = \<lparr>urlparse = demo_urlparse, geturl = demo_geturl, urljoin = demo_urljoin,
           requote_uri = demo_requote_uri, URL = demo_URL, url_str = demo_str\<rparr>"

definition post_x :: request where
  "post_x = \<lparr>method = ''POST'', url = demo_URL ''http://a.example/x'',
             headers = [(''Authorization'', ''Basic abc''), (''Accept'', ''*/*'')],
             body = Bytes ''data''\<rparr>"

definition redirect_to :: "int \<Rightarrow> string \<Rightarrow> reply" where
  "redirect_to code location =
     \<lparr>status_code = code, reply_headers = [(''location'', location)], is_redirect = True\<rparr>"

definition ok :: reply where
  "ok = \<lparr>status_code = 200, reply_headers = [], is_redirect = False\<rparr>"

definition start :: world where
  "start = \<lparr>resps = (\<lambda>_. \<lparr>received = ok, history = None, resp_next = None\<rparr>), n_resps = 0,
            lists = (\<lambda>_. []), n_lists = 0, sets = (\<lambda>_. {}), n_sets = 0, sent = []\<rparr>"

text \<open>The keyword arguments of a top-level call, with and without following.\<close>

definition automatic :: options where
  "automatic = \<lparr>opt_allow_redirects = None, opt_history = None, opt_seen_urls = None\<rparr>"

definition manual :: options where
  "manual = \<lparr>opt_allow_redirects = Some False, opt_history = None, opt_seen_urls = None\<rparr>"

text \<open>
  Two transports: \<open>three_hops\<close> redirects \<^verbatim>\<open>/x\<close> to \<^verbatim>\<open>/y\<close> and \<^verbatim>\<open>/y\<close> to \<^verbatim>\<open>/z\<close>
  and answers 200 otherwise; \<open>self_loop\<close> answers the first request it gets with a
  redirect to \<^verbatim>\<open>http://a.example/x\<close> and every later one with 200.
\<close>

definition three_hops :: dispatch where
  "three_hops lg req =
     (if full_path (url req) = ''/x'' then redirect_to 302 ''/y''
      else if full_path (url req) = ''/y'' then redirect_to 302 ''/z''
      else ok)"

definition self_loop :: dispatch where
  "self_loop lg req = (if lg = [] then redirect_to 302 ''http://a.example/x'' else ok)"

text \<open>Requests used in the examples: a streamed upload, and a URL whose path has a space.\<close>

definition upload :: request where
  "upload = post_x\<lparr>body := Streaming\<rparr>"

definition spaced :: request where
  "spaced = post_x\<lparr>url := demo_URL ''http://a.example/a b/c''\<rparr>"

text \<open>
  The request that follows \<open>post_x\<close> on a 302 to \<^verbatim>\<open>/y\<close>, and the partial application
  that a call without following leaves in \<^verbatim>\<open>response.next\<close> for it and for a 302 back
  to \<^verbatim>\<open>/x\<close>, when the history list and the set of seen URLs are the first objects made.
\<close>

definition pending :: partial where
  "pending =
     \<lparr>p_request = \<lparr>method = ''GET'', url = demo_URL ''http://a.example/y'',
                    headers = headers post_x, body = Bytes ''''\<rparr>,
      p_seen_urls = 0, p_history = 0\<rparr>"

definition pending_x :: partial where
  "pending_x =
     \<lparr>p_request = \<lparr>method = ''GET'', url = demo_URL ''http://a.example/x'',
                    headers = headers post_x, body = Bytes ''''\<rparr>,
      p_seen_urls = 0, p_history = 0\<rparr>"

text \<open>
  A chain on \<open>three_hops\<close> stopped after its first response, and the world in which a
  call of \<^verbatim>\<open>response.next\<close> enters the loop.
\<close>

definition suspended :: "(error + nat) \<times> world" where
  "suspended = send three_hops demo 20 manual post_x start"

definition resumed :: world where
  "resumed = set_add 0 (url (p_request pending)) (snd suspended)"

text \<open>A header store that holds the headers of \<open>post_x\<close> at address 0 and nothing else.\<close>

definition one_request :: header_store where
  "one_request = \<lparr>objs = (\<lambda>_. [])(0 := headers post_x), n_objs = 1\<rparr>"

text \<open>A chain on \<open>self_loop\<close> stopped after its first response.\<close>

definition looped :: "(error + nat) \<times> world" where
  "looped = send self_loop demo 20 manual post_x start"

section \<open>Properties of the transformation rules\<close>

subsection \<open>Method\<close>

text \<open>
  C5: the method of the next request is the result of the ordered rules of the
  specification: GET for a 303 unless the method is HEAD, GET for a 302 unless the method
  is HEAD, GET for a 301 when the method is POST, and the method of the current request
  otherwise. So POST becomes GET on 303, 302 and 301, PUT stays PUT on 301, and HEAD
  stays HEAD on every status code.
\<close>

theorem redirect_method_rules:
  "redirect_method req resp = redirect_method_spec (method req) (status_code resp) \<and>
   redirect_method (req\<lparr>method := ''POST''\<rparr>) (resp\<lparr>status_code := 303\<rparr>) = ''GET'' \<and>
   redirect_method (req\<lparr>method := ''POST''\<rparr>) (resp\<lparr>status_code := 302\<rparr>) = ''GET'' \<and>
   redirect_method (req\<lparr>method := ''POST''\<rparr>) (resp\<lparr>status_code := 301\<rparr>) = ''GET'' \<and>
   redirect_method (req\<lparr>method := ''PUT''\<rparr>) (resp\<lparr>status_code := 301\<rparr>) = ''PUT'' \<and>
   redirect_method (req\<lparr>method := ''HEAD''\<rparr>) resp = ''HEAD''"
  by (simp add: redirect_method_def redirect_method_spec_def see_other_def found_def
        moved_permanently_def Let_def)

text \<open>
  C10: for every method and status code, \<open>redirect_method\<close> returns the method of the
  current request or the string GET.
\<close>

theorem redirect_method_range:
  "redirect_method req resp = method req \<or> redirect_method req resp = ''GET''"
  by (simp add: redirect_method_def Let_def)

subsection \<open>Headers\<close>

lemma lower_Authorization: "lower ''Authorization'' = ''authorization''"
  by (simp add: lower_def lower_char_def)

lemma delitem_Authorization:
  "delitem hs ''Authorization'' = filter (\<lambda>kv. \<not> is_authorization kv) hs"
  by (simp add: delitem_def has_name_def is_authorization_def lower_Authorization)

lemma build_redirect_request_Inr:
  "build_redirect_request U req resp = Inr nxt \<Longrightarrow>
     \<exists>u b. redirect_url U req resp = Inr u \<and>
           redirect_body req (redirect_method req resp) = Inr b \<and>
           nxt = \<lparr>method = redirect_method req resp, url = u,
                  headers = redirect_headers req u, body = Bytes b\<rparr>"
  by (auto simp: build_redirect_request_def Let_def split: sum.splits)

lemma build_redirect_request_Inl:
  "build_redirect_request U req resp = Inl e \<Longrightarrow> e = KeyError \<or> e = RedirectBodyUnavailable"
  by (auto simp: build_redirect_request_def redirect_url_def redirect_body_def getitem_def
        Let_def split: sum.splits if_splits content.splits)

text \<open>
  C3: when a next request is built, its headers are those of the current request if its
  URL has the origin of the current request's URL; otherwise they are those of the current
  request without the Authorization entries, all other entries kept in their order.
\<close>

theorem redirect_headers_authorization:
  assumes "build_redirect_request U req resp = Inr nxt"
  shows "(origin (url nxt) = origin (url req) \<longrightarrow> headers nxt = headers req) \<and>
         (origin (url nxt) \<noteq> origin (url req) \<longrightarrow>
            headers nxt = filter (\<lambda>kv. \<not> is_authorization kv) (headers req) \<and>
            \<not> (\<exists>kv \<in> set (headers nxt). is_authorization kv))"
proof -
  from build_redirect_request_Inr [OF assms]
  have "headers nxt = redirect_headers req (url nxt)" by auto
  then show ?thesis
    by (auto simp: redirect_headers_def Let_def delitem_Authorization)
qed

theorem redirect_headers_authorization_witness:
  "build_redirect_request demo post_x (redirect_to 307 ''//b.example/y'') =
     Inr \<lparr>method = ''POST'', url = demo_URL ''http://b.example/y'',
          headers = [(''Accept'', ''*/*'')], body = Bytes ''data''\<rparr> \<and>
   origin (demo_URL ''http://b.example/y'') \<noteq> origin (url post_x) \<and>
   [(''Accept'', ''*/*'')] = filter (\<lambda>kv. \<not> is_authorization kv) (headers post_x)"
proof -
  have h: "build_redirect_request demo post_x (redirect_to 307 ''//b.example/y'') =
     Inr \<lparr>method = ''POST'', url = demo_URL ''http://b.example/y'',
          headers = [(''Accept'', ''*/*'')], body = Bytes ''data''\<rparr>"
    by code_simp
  have o: "origin (demo_URL ''http://b.example/y'') \<noteq> origin (url post_x)"
    by code_simp
  from redirect_headers_authorization [OF h] o h show ?thesis by simp
qed

subsection \<open>Body\<close>

text \<open>
  The last sentence of claim C6 as the specification words it, at a streamed upload sent
  with the method GET: a 303 leaves the method GET, so the method has not changed, and
  building the next request fails with \<open>RedirectBodyUnavailable\<close> where the claim has
  it succeed with an empty body.
\<close>

theorem redirect_body_streaming_get_counterexample:
  "is_streaming (upload\<lparr>method := ''GET''\<rparr>) \<and>
   status_code (redirect_to 303 ''/y'') = 303 \<and>
   redirect_url demo (upload\<lparr>method := ''GET''\<rparr>) (redirect_to 303 ''/y'') =
     Inr (demo_URL ''http://a.example/y'') \<and>
   build_redirect_request demo (upload\<lparr>method := ''GET''\<rparr>) (redirect_to 303 ''/y'') =
     Inl RedirectBodyUnavailable \<and>
   map_sum id body (build_redirect_request demo (upload\<lparr>method := ''GET''\<rparr>)
                      (redirect_to 303 ''/y'')) \<noteq> Inr (Bytes '''')"
  by code_simp

text \<open>
  C6, amended: when the URL of the next request can be derived, the body of the next
  request is empty if the derived method is GET and differs from the method of the current
  request; otherwise building the next request fails with \<open>RedirectBodyUnavailable\<close> if
  the current request streams its body, and the next request carries the bytes of the
  current one if it does not. So a streaming request fails on a 307; on a 303 it succeeds
  with an empty body when its method is neither GET nor HEAD, and fails when its method
  is GET or HEAD, which a 303 leaves as it is.
\<close>

theorem redirect_body_cases:
  assumes "redirect_url U req resp = Inr u"
  shows "(redirect_method req resp \<noteq> method req \<and> redirect_method req resp = ''GET'' \<longrightarrow>
            map_sum id body (build_redirect_request U req resp) = Inr (Bytes '''')) \<and>
         (\<not> (redirect_method req resp \<noteq> method req \<and> redirect_method req resp = ''GET'') \<longrightarrow>
            (is_streaming req \<longrightarrow>
               build_redirect_request U req resp = Inl RedirectBodyUnavailable) \<and>
            (\<not> is_streaming req \<longrightarrow>
               map_sum id body (build_redirect_request U req resp) = Inr (body req))) \<and>
         (is_streaming req \<and> status_code resp = 307 \<longrightarrow>
            build_redirect_request U req resp = Inl RedirectBodyUnavailable) \<and>
         (is_streaming req \<and> status_code resp = 303 \<and> method req \<noteq> ''GET'' \<and>
          method req \<noteq> ''HEAD'' \<longrightarrow>
            map_sum id body (build_redirect_request U req resp) = Inr (Bytes '''')) \<and>
         (is_streaming req \<and> status_code resp = 303 \<and>
          (method req = ''GET'' \<or> method req = ''HEAD'') \<longrightarrow>
            build_redirect_request U req resp = Inl RedirectBodyUnavailable)"
  using assms
  by (cases "body req")
     (auto simp: build_redirect_request_def redirect_body_def redirect_method_def
        is_streaming_def see_other_def found_def moved_permanently_def Let_def)

theorem redirect_body_cases_witness:
  "redirect_url demo upload (redirect_to 307 ''/y'') = Inr (demo_URL ''http://a.example/y'') \<and>
   is_streaming upload \<and>
   build_redirect_request demo upload (redirect_to 307 ''/y'') = Inl RedirectBodyUnavailable \<and>
   redirect_url demo upload (redirect_to 303 ''/y'') = Inr (demo_URL ''http://a.example/y'') \<and>
   map_sum id body (build_redirect_request demo upload (redirect_to 303 ''/y'')) =
     Inr (Bytes '''')"
proof -
  have u7: "redirect_url demo upload (redirect_to 307 ''/y'') = Inr (demo_URL ''http://a.example/y'')"
    and u3: "redirect_url demo upload (redirect_to 303 ''/y'') = Inr (demo_URL ''http://a.example/y'')"
    by code_simp+
  have s: "is_streaming upload" and m: "method upload = ''POST''"
    by (simp_all add: upload_def post_x_def is_streaming_def)
  have c: "status_code (redirect_to 307 ''/y'') = 307" "status_code (redirect_to 303 ''/y'') = 303"
    by (simp_all add: redirect_to_def)
  from redirect_body_cases [OF u7] redirect_body_cases [OF u3] u7 u3 s m c
  show ?thesis by simp
qed

subsection \<open>URL\<close>

text \<open>
  The claim C7 as the specification words it, on the stand-ins: the request is for
  \<^verbatim>\<open>http://a.example/a b/c\<close> and the Location header is the relative reference
  \<^verbatim>\<open>d\<close>, which has no authority. Encoding after resolving would encode the space of the
  base URL; \<open>redirect_url\<close> encodes the target \<^verbatim>\<open>d\<close> and then resolves it, and the
  space stays.
\<close>

theorem redirect_url_encode_after_resolve_counterexample:
  "p_netloc (redirect_target demo spaced ''d'') = '''' \<and>
   redirect_url demo spaced (redirect_to 302 ''d'') = Inr (demo_URL ''http://a.example/a b/d'') \<and>
   URL demo (requote_uri demo (urljoin demo (url_str demo (url spaced))
       (geturl demo (redirect_target demo spaced ''d'')))) =
     demo_URL ''http://a.example/a%20b/d'' \<and>
   demo_URL ''http://a.example/a b/d'' \<noteq> demo_URL ''http://a.example/a%20b/d''"
  by code_simp

text \<open>
  C7, amended: when the redirect target has no authority component, the next URL is the
  percent-re-encoded target resolved against the URL of the current request (the target
  is encoded, the result of resolving is not); when the target has an authority
  component, the next URL is the percent-re-encoded target, without resolving.
\<close>

theorem redirect_url_resolution:
  assumes "getitem (reply_headers resp) ''Location'' = Inr location"
  shows "redirect_url U req resp =
           Inr (URL U (let target = redirect_target U req location
                       in if p_netloc target = ''''
                          then urljoin U (url_str U (url req)) (requote_uri U (geturl U target))
                          else requote_uri U (geturl U target)))"
  using assms by (simp add: redirect_url_def redirect_target_def Let_def)

theorem redirect_url_resolution_witness:
  "getitem (reply_headers (redirect_to 302 ''d'')) ''Location'' = Inr ''d'' \<and>
   redirect_url demo spaced (redirect_to 302 ''d'') =
     Inr (URL demo (urljoin demo (url_str demo (url spaced)) (requote_uri demo ''d'')))"
proof -
  have g: "getitem (reply_headers (redirect_to 302 ''d'')) ''Location'' = Inr ''d''"
    by code_simp
  have t: "p_netloc (redirect_target demo spaced ''d'') = ''''"
    and u: "geturl demo (redirect_target demo spaced ''d'') = ''d''"
    by code_simp+
  from redirect_url_resolution [OF g, of demo spaced] g t u show ?thesis by simp
qed

section \<open>Properties of the controller\<close>

subsection \<open>One pass of the loop and induction over its passes\<close>

lemma receive_eq:
  "receive D req h w =
     (n_resps w,
      w\<lparr>resps := (resps w)(n_resps w :=
            \<lparr>received = D (sent w) req, history = Some (n_lists w), resp_next = None\<rparr>),
        n_resps := Suc (n_resps w),
        lists := (lists w)(n_lists w := lists w h),
        n_lists := Suc (n_lists w),
        sent := sent w @ [req]\<rparr>)"
  by (simp add: receive_def dispatch_send_def new_list_def set_history_def)

lemma send_loop_induct [consumes 1, case_names final error manual too_many loop follow]:
  assumes run: "send_loop D U mx al req h s w = (res, w')"
    and final: "\<And>req w r w1. receive D req h w = (r, w1) \<Longrightarrow>
        \<not> is_redirect (received (resps w1 r)) \<Longrightarrow> P req w (Inr r) w1"
    and error: "\<And>req w r w1 e. receive D req h w = (r, w1) \<Longrightarrow>
        is_redirect (received (resps w1 r)) \<Longrightarrow>
        build_redirect_request U req (received (resps w1 r)) = Inl e \<Longrightarrow>
        P req w (Inl e) (list_append h r w1)"
    and manual: "\<And>req w r w1 req'. receive D req h w = (r, w1) \<Longrightarrow>
        is_redirect (received (resps w1 r)) \<Longrightarrow>
        build_redirect_request U req (received (resps w1 r)) = Inr req' \<Longrightarrow> \<not> al \<Longrightarrow>
        P req w (Inr r)
          (set_next r \<lparr>p_request = req', p_seen_urls = s, p_history = h\<rparr> (list_append h r w1))"
    and too_many: "\<And>req w r w1 req'. receive D req h w = (r, w1) \<Longrightarrow>
        is_redirect (received (resps w1 r)) \<Longrightarrow>
        build_redirect_request U req (received (resps w1 r)) = Inr req' \<Longrightarrow> al \<Longrightarrow>
        mx < int (length (lists (list_append h r w1) h)) \<Longrightarrow>
        P req w (Inl TooManyRedirects) (list_append h r w1)"
    and loop: "\<And>req w r w1 req'. receive D req h w = (r, w1) \<Longrightarrow>
        is_redirect (received (resps w1 r)) \<Longrightarrow>
        build_redirect_request U req (received (resps w1 r)) = Inr req' \<Longrightarrow> al \<Longrightarrow>
        \<not> mx < int (length (lists (list_append h r w1) h)) \<Longrightarrow>
        url req' \<in> sets (list_append h r w1) s \<Longrightarrow>
        P req w (Inl RedirectLoop) (list_append h r w1)"
    and follow: "\<And>req w r w1 req'. receive D req h w = (r, w1) \<Longrightarrow>
        is_redirect (received (resps w1 r)) \<Longrightarrow>
        build_redirect_request U req (received (resps w1 r)) = Inr req' \<Longrightarrow> al \<Longrightarrow>
        \<not> mx < int (length (lists (list_append h r w1) h)) \<Longrightarrow>
        url req' \<notin> sets (list_append h r w1) s \<Longrightarrow>
        send_loop D U mx al req' h s (set_add s (url req') (list_append h r w1)) = (res, w') \<Longrightarrow>
        P req' (set_add s (url req') (list_append h r w1)) res w' \<Longrightarrow>
        P req w res w'"
  shows "P req w res w'"
  using assms
proof (induction D U mx al req h s w rule: send_loop.induct)
  case (1 D U mx al req h s w)
  obtain r w1 where rcv: "receive D req h w = (r, w1)" by (cases "receive D req h w")
  show ?case
  proof (cases "is_redirect (received (resps w1 r))")
    case False
    with "1.prems"(1) rcv have "res = Inr r" "w' = w1"
      by (simp_all add: send_loop.simps [of _ _ _ _ req h s w])
    with "1.prems"(2) [OF rcv False] show ?thesis by simp
  next
    case red: True
    show ?thesis
    proof (cases "build_redirect_request U req (received (resps w1 r))")
      case (Inl e)
      with "1.prems"(1) rcv red have "res = Inl e" "w' = list_append h r w1"
        by (simp_all add: send_loop.simps [of _ _ _ _ req h s w])
      with "1.prems"(3) [OF rcv red Inl] show ?thesis by simp
    next
      case (Inr req')
      show ?thesis
      proof (cases al)
        case False
        with "1.prems"(1) rcv red Inr have "res = Inr r"
          "w' = set_next r \<lparr>p_request = req', p_seen_urls = s, p_history = h\<rparr> (list_append h r w1)"
          by (simp_all add: send_loop.simps [of _ _ _ _ req h s w])
        with "1.prems"(4) [OF rcv red Inr False] show ?thesis by simp
      next
        case al: True
        show ?thesis
        proof (cases "mx < int (length (lists (list_append h r w1) h))")
          case True
          with "1.prems"(1) rcv red Inr al have "res = Inl TooManyRedirects" "w' = list_append h r w1"
            by (simp_all add: send_loop.simps [of _ _ _ _ req h s w])
          with "1.prems"(5) [OF rcv red Inr al True] show ?thesis by simp
        next
          case lim: False
          show ?thesis
          proof (cases "url req' \<in> sets (list_append h r w1) s")
            case True
            with "1.prems"(1) rcv red Inr al lim have "res = Inl RedirectLoop" "w' = list_append h r w1"
              by (simp_all add: send_loop.simps [of _ _ _ _ req h s w])
            with "1.prems"(6) [OF rcv red Inr al lim True] show ?thesis by simp
          next
            case False
            with "1.prems"(1) rcv red Inr al lim
            have rec: "send_loop D U mx al req' h s (set_add s (url req') (list_append h r w1)) = (res, w')"
              by (simp add: send_loop.simps [of _ _ _ _ req h s w])
            note ih = "1.IH" [OF rcv [symmetric] _ refl Inr _ _ _ rec "1.prems"(2-7)]
            have "P req' (set_add s (url req') (list_append h r w1)) res w'"
              by (rule ih) (use red al lim False in simp_all)
            with "1.prems"(7) [OF rcv red Inr al lim False rec] show ?thesis .
          qed
        qed
      qed
    qed
  qed
qed

subsection \<open>The redirect limit\<close>

lemma send_loop_automatic:
  "send_loop D U mx True req h s w = (res, w') \<Longrightarrow> h < n_lists w \<Longrightarrow>
     h < n_lists w' \<and>
     length (lists w h) \<le> length (lists w' h) \<and>
     length (sent w') + length (lists w h) =
       length (sent w) + length (lists w' h) + (case res of Inl e \<Rightarrow> 0 | Inr r \<Rightarrow> 1) \<and>
     (res = Inl TooManyRedirects \<longrightarrow> mx < int (length (lists w' h))) \<and>
     (res = Inl RedirectLoop \<longrightarrow> int (length (lists w' h)) \<le> mx) \<and>
     (int (length (lists w h)) \<le> mx \<longrightarrow> int (length (lists w' h)) \<le> mx + 1) \<and>
     (\<forall>r. res = Inr r \<longrightarrow>
        (int (length (lists w h)) \<le> mx \<longrightarrow> int (length (lists w' h)) \<le> mx) \<and>
        history_of w' r = Some (lists w' h)) \<and>
     (\<forall>e. res = Inl e \<longrightarrow>
        (case last_build U w' h of
           Inl e' \<Rightarrow> e = e'
         | Inr nxt \<Rightarrow> e = TooManyRedirects \<or> e = RedirectLoop))"
proof (induction rule: send_loop_induct)
  case (final req w r w1)
  then show ?case by (auto simp: receive_eq history_of_def)
next
  case (error req w r w1 e)
  then show ?case
    by (auto simp: receive_eq list_append_def last_build_def
          dest: build_redirect_request_Inl)
next
  case (manual req w r w1 req')
  then show ?case by simp
next
  case (too_many req w r w1 req')
  then show ?case by (auto simp: receive_eq list_append_def last_build_def)
next
  case (loop req w r w1 req')
  then show ?case by (auto simp: receive_eq list_append_def last_build_def)
next
  case (follow req w r w1 req')
  then show ?case by (auto simp: receive_eq list_append_def set_add_def)
qed

text \<open>
  C4: a top-level call that follows redirects (\<^verbatim>\<open>allow_redirects\<close> absent or true, no
  history passed in) with a maximum \<open>mx\<close> of at least 0. The accumulated history holds
  the redirect responses received so far. The call fails with \<open>TooManyRedirects\<close>
  exactly when \<open>mx + 1\<close> redirect responses have been received and the next request can
  be built from the last of them, that is, when one more request than the maximum allows
  is ready to be sent; at that point the initial request and \<open>mx\<close> redirected requests
  have been sent and no more, and no call sends more than that. The history of a returned
  response has at most \<open>mx\<close> entries, within the bound \<open>mx + 1\<close> of the claim.
\<close>

theorem too_many_redirects_limit:
  assumes "0 \<le> mx" and "opt_allow_redirects opts \<noteq> Some False" and "opt_history opts = None"
    and "send D U mx opts req w = (res, w')"
  shows "(res = Inl TooManyRedirects \<longleftrightarrow>
           int (length (lists w' (n_lists w))) = mx + 1 \<and>
           (\<exists>nxt. last_build U w' (n_lists w) = Inr nxt)) \<and>
         (res = Inl TooManyRedirects \<longrightarrow> length (sent w') = length (sent w) + nat mx + 1) \<and>
         length (sent w') \<le> length (sent w) + nat mx + 1 \<and>
         (\<forall>r. res = Inr r \<longrightarrow>
            (\<exists>hs. history_of w' r = Some hs \<and> int (length hs) \<le> mx + 1 \<and>
                  int (length hs) \<le> mx))"
proof -
  define w0 where "w0 = snd (new_list [] w)"
  define s where "s = (case opt_seen_urls opts of None \<Rightarrow> n_sets w0 | Some s \<Rightarrow> s)"
  define w1 where "w1 = set_add s (url req)
    (case opt_seen_urls opts of None \<Rightarrow> snd (new_set {} w0) | Some s \<Rightarrow> w0)"
  have al: "(case opt_allow_redirects opts of None \<Rightarrow> True | Some b \<Rightarrow> b) = True"
    using assms(2) by (cases "opt_allow_redirects opts") auto
  have run: "send_loop D U mx True req (n_lists w) s w1 = (res, w')"
    using assms(3,4) al
    by (cases "opt_seen_urls opts")
       (simp_all add: send_def w0_def s_def w1_def new_list_def new_set_def)
  have h: "n_lists w < n_lists w1" and l0: "lists w1 (n_lists w) = []"
    and s0: "sent w1 = sent w"
    by (cases "opt_seen_urls opts";
        simp add: w0_def s_def w1_def new_list_def new_set_def set_add_def)+
  from send_loop_automatic [OF run h] l0 s0 assms(1)
  have cnt: "length (sent w') =
               length (sent w) + length (lists w' (n_lists w)) +
               (case res of Inl e \<Rightarrow> 0 | Inr r \<Rightarrow> 1)"
    and tm: "res = Inl TooManyRedirects \<Longrightarrow> mx < int (length (lists w' (n_lists w)))"
    and lp: "res = Inl RedirectLoop \<Longrightarrow> int (length (lists w' (n_lists w))) \<le> mx"
    and ub: "int (length (lists w' (n_lists w))) \<le> mx + 1"
    and fin: "\<And>r. res = Inr r \<Longrightarrow> int (length (lists w' (n_lists w))) \<le> mx \<and>
                 history_of w' r = Some (lists w' (n_lists w))"
    and err: "\<And>e. res = Inl e \<Longrightarrow>
                 (case last_build U w' (n_lists w) of
                    Inl e' \<Rightarrow> e = e'
                  | Inr nxt \<Rightarrow> e = TooManyRedirects \<or> e = RedirectLoop)"
    by simp_all
  have iff: "res = Inl TooManyRedirects \<longleftrightarrow>
           int (length (lists w' (n_lists w))) = mx + 1 \<and>
           (\<exists>nxt. last_build U w' (n_lists w) = Inr nxt)"
  proof
    assume t: "res = Inl TooManyRedirects"
    from tm [OF t] ub have "int (length (lists w' (n_lists w))) = mx + 1" by simp
    moreover have "\<exists>nxt. last_build U w' (n_lists w) = Inr nxt"
    proof (cases "last_build U w' (n_lists w)")
      case (Inl e')
      with err [OF t] have "last_build U w' (n_lists w) = Inl TooManyRedirects" by simp
      then show ?thesis
        by (auto simp: last_build_def dest: build_redirect_request_Inl)
    next
      case (Inr nxt)
      then show ?thesis by blast
    qed
    ultimately show "int (length (lists w' (n_lists w))) = mx + 1 \<and>
           (\<exists>nxt. last_build U w' (n_lists w) = Inr nxt)" ..
  next
    assume a: "int (length (lists w' (n_lists w))) = mx + 1 \<and>
           (\<exists>nxt. last_build U w' (n_lists w) = Inr nxt)"
    show "res = Inl TooManyRedirects"
    proof (cases res)
      case (Inl e)
      with err [of e] a have "e = TooManyRedirects \<or> e = RedirectLoop" by auto
      with lp a Inl show ?thesis by auto
    next
      case (Inr r)
      with fin [of r] a show ?thesis by simp
    qed
  qed
  have sends: "res = Inl TooManyRedirects \<longrightarrow> length (sent w') = length (sent w) + nat mx + 1"
    using iff cnt assms(1) by auto
  have bound: "length (sent w') \<le> length (sent w) + nat mx + 1"
  proof (cases res)
    case (Inl e)
    with cnt ub assms(1) show ?thesis by (simp add: le_nat_iff)
  next
    case (Inr r)
    with cnt fin [of r] assms(1) show ?thesis by (simp add: le_nat_iff)
  qed
  have final: "\<forall>r. res = Inr r \<longrightarrow>
            (\<exists>hs. history_of w' r = Some hs \<and> int (length hs) \<le> mx + 1 \<and>
                  int (length hs) \<le> mx)"
    using fin by auto
  from iff sends bound final show ?thesis by blast
qed

theorem too_many_redirects_limit_witness:
  "(0::int) \<le> 1 \<and> opt_allow_redirects automatic \<noteq> Some False \<and>
   opt_history automatic = None \<and>
   fst (send three_hops demo 1 automatic post_x start) = Inl TooManyRedirects \<and>
   length (sent (snd (send three_hops demo 1 automatic post_x start))) =
     length (sent start) + nat 1 + 1"
proof -
  have a: "opt_allow_redirects automatic \<noteq> Some False" and h: "opt_history automatic = None"
    by (simp_all add: automatic_def)
  have r: "fst (send three_hops demo 1 automatic post_x start) = Inl TooManyRedirects"
    by code_simp
  have e: "send three_hops demo 1 automatic post_x start =
             (fst (send three_hops demo 1 automatic post_x start),
              snd (send three_hops demo 1 automatic post_x start))"
    by simp
  from too_many_redirects_limit [OF _ a h e] a h r show ?thesis by simp
qed

subsection \<open>Fields of the world after each operation, and single passes\<close>

lemma new_list_fields:
  "n_resps (snd (new_list xs w)) = n_resps w" "n_lists (snd (new_list xs w)) = Suc (n_lists w)"
  "n_sets (snd (new_list xs w)) = n_sets w" "sent (snd (new_list xs w)) = sent w"
  "resps (snd (new_list xs w)) = resps w" "sets (snd (new_list xs w)) = sets w"
  "lists (snd (new_list xs w)) = (lists w)(n_lists w := xs)"
  by (simp_all add: new_list_def)

lemma new_set_fields:
  "n_resps (snd (new_set xs w)) = n_resps w" "n_lists (snd (new_set xs w)) = n_lists w"
  "n_sets (snd (new_set xs w)) = Suc (n_sets w)" "sent (snd (new_set xs w)) = sent w"
  "resps (snd (new_set xs w)) = resps w" "lists (snd (new_set xs w)) = lists w"
  "sets (snd (new_set xs w)) = (sets w)(n_sets w := xs)"
  by (simp_all add: new_set_def)

lemma receive_snd_fields:
  "n_resps (snd (receive D req h w)) = Suc (n_resps w)"
  "n_lists (snd (receive D req h w)) = Suc (n_lists w)"
  "n_sets (snd (receive D req h w)) = n_sets w"
  "sent (snd (receive D req h w)) = sent w @ [req]"
  "sets (snd (receive D req h w)) = sets w"
  "lists (snd (receive D req h w)) = (lists w)(n_lists w := lists w h)"
  "resps (snd (receive D req h w)) = (resps w)(n_resps w :=
      \<lparr>received = D (sent w) req, history = Some (n_lists w), resp_next = None\<rparr>)"
  by (simp_all add: receive_eq)

lemma list_append_fields:
  "n_resps (list_append h r w) = n_resps w" "n_lists (list_append h r w) = n_lists w"
  "n_sets (list_append h r w) = n_sets w" "sent (list_append h r w) = sent w"
  "resps (list_append h r w) = resps w" "sets (list_append h r w) = sets w"
  "lists (list_append h r w) = (lists w)(h := lists w h @ [r])"
  by (simp_all add: list_append_def)

lemma set_add_fields:
  "n_resps (set_add s u w) = n_resps w" "n_lists (set_add s u w) = n_lists w"
  "n_sets (set_add s u w) = n_sets w" "sent (set_add s u w) = sent w"
  "resps (set_add s u w) = resps w" "lists (set_add s u w) = lists w"
  "sets (set_add s u w) = (sets w)(s := insert u (sets w s))"
  by (simp_all add: set_add_def)

lemma set_next_fields:
  "n_resps (set_next r p w) = n_resps w" "n_lists (set_next r p w) = n_lists w"
  "n_sets (set_next r p w) = n_sets w" "sent (set_next r p w) = sent w"
  "lists (set_next r p w) = lists w" "sets (set_next r p w) = sets w"
  "resps (set_next r p w) = (resps w)(r := (resps w r)\<lparr>resp_next := Some p\<rparr>)"
  by (simp_all add: set_next_def)

lemma start_fields:
  "n_resps start = 0" "n_lists start = 0" "n_sets start = 0" "sent start = []"
  by (simp_all add: start_def)

lemmas world_fields = new_list_fields new_set_fields receive_snd_fields list_append_fields
  set_add_fields set_next_fields start_fields

lemma send_fresh:
  assumes "opt_history opts = None" and "opt_seen_urls opts = None"
  shows "send D U mx opts req w =
           send_loop D U mx (opt_allow_redirects opts \<noteq> Some False) req (n_lists w) (n_sets w)
             (set_add (n_sets w) (url req) (snd (new_set {} (snd (new_list [] w)))))"
  using assms
  by (cases "opt_allow_redirects opts") (simp_all add: send_def new_list_def new_set_def)

lemma send_loop_final:
  assumes "\<not> is_redirect (D (sent w) req)"
  shows "send_loop D U mx al req h s w = (Inr (n_resps w), snd (receive D req h w))"
  using assms by (simp add: send_loop.simps [of _ _ _ _ req h s w] receive_eq)

lemma send_loop_manual:
  assumes "is_redirect (D (sent w) req)"
    and "build_redirect_request U req (D (sent w) req) = Inr req'"
  shows "send_loop D U mx False req h s w =
           (Inr (n_resps w),
            set_next (n_resps w) \<lparr>p_request = req', p_seen_urls = s, p_history = h\<rparr>
              (list_append h (n_resps w) (snd (receive D req h w))))"
  using assms by (simp add: send_loop.simps [of _ _ _ _ req h s w] receive_eq)

lemma send_loop_follow:
  assumes "is_redirect (D (sent w) req)"
    and "build_redirect_request U req (D (sent w) req) = Inr req'"
    and "int (length (lists w h)) < mx" and "url req' \<notin> sets w s"
  shows "send_loop D U mx True req h s w =
           send_loop D U mx True req' h s
             (set_add s (url req') (list_append h (n_resps w) (snd (receive D req h w))))"
  using assms
  by (simp add: send_loop.simps [of _ _ _ _ req h s w] receive_eq list_append_def)

subsection \<open>The example chains, pass by pass\<close>

lemma reply_fields:
  "is_redirect (redirect_to c l)" "status_code (redirect_to c l) = c"
  "\<not> is_redirect ok" "status_code ok = 200"
  by (simp_all add: redirect_to_def ok_def)

lemma three_hops_replies:
  "three_hops lg post_x = redirect_to 302 ''/y''"
  "three_hops lg (p_request pending) = redirect_to 302 ''/z''"
  by code_simp+

lemma build_on_three_hops:
  "build_redirect_request demo post_x (redirect_to 302 ''/y'') = Inr (p_request pending)"
  by code_simp

lemma suspended_eq:
  "suspended =
     (Inr 0, set_next 0 pending (list_append 0 0 (snd (receive three_hops post_x 0
        (set_add 0 (url post_x) (snd (new_set {} (snd (new_list [] start)))))))))"
proof -
  have p: "\<lparr>p_request = p_request pending, p_seen_urls = 0, p_history = 0\<rparr> = pending"
    by (simp add: pending_def)
  have m: "opt_history manual = None" "opt_seen_urls manual = None"
    "opt_allow_redirects manual = Some False"
    by (simp_all add: manual_def)
  let ?w = "set_add 0 (url post_x) (snd (new_set {} (snd (new_list [] start))))"
  have "send_loop three_hops demo 20 False post_x 0 0 ?w =
          (Inr (n_resps ?w),
           set_next (n_resps ?w) \<lparr>p_request = p_request pending, p_seen_urls = 0, p_history = 0\<rparr>
             (list_append 0 (n_resps ?w) (snd (receive three_hops post_x 0 ?w))))"
    by (rule send_loop_manual)
       (simp_all add: three_hops_replies build_on_three_hops reply_fields)
  then show ?thesis
    unfolding suspended_def send_fresh [OF m(1,2)]
    by (simp add: m(3) world_fields p)
qed

lemma three_hops_last:
  "three_hops lg \<lparr>method = ''GET'', url = demo_URL ''http://a.example/z'',
                    headers = headers post_x, body = Bytes ''''\<rparr> = ok"
  by code_simp

lemma build_on_three_hops_next:
  "build_redirect_request demo (p_request pending) (redirect_to 302 ''/z'') =
     Inr \<lparr>method = ''GET'', url = demo_URL ''http://a.example/z'',
          headers = headers post_x, body = Bytes ''''\<rparr>"
  by code_simp

lemma example_urls:
  "url (p_request pending) = demo_URL ''http://a.example/y''"
  "url post_x = demo_URL ''http://a.example/x''"
  "url (p_request pending_x) = demo_URL ''http://a.example/x''"
  "demo_URL ''http://a.example/z'' \<noteq> demo_URL ''http://a.example/y''"
  "demo_URL ''http://a.example/z'' \<noteq> demo_URL ''http://a.example/x''"
  "demo_URL ''http://a.example/y'' \<noteq> demo_URL ''http://a.example/x''"
  by code_simp+

lemma pending_fields:
  "p_history pending = 0" "p_seen_urls pending = 0"
  "p_history pending_x = 0" "p_seen_urls pending_x = 0"
  by (simp_all add: pending_def pending_x_def)

lemma call_next_eq:
  "call_next D U mx p allow w =
     send_loop D U mx (case allow of None \<Rightarrow> True | Some b \<Rightarrow> b) (p_request p) (p_history p)
       (p_seen_urls p) (set_add (p_seen_urls p) (url (p_request p)) w)"
  by (simp add: call_next_def send_def)

lemma resumed_fields:
  "n_resps resumed = 1" "lists resumed 0 = [0]"
  "sets resumed 0 = {demo_URL ''http://a.example/y'', demo_URL ''http://a.example/x''}"
  by (simp_all add: resumed_def suspended_eq world_fields example_urls)

lemma resumed_run:
  "send_loop three_hops demo 20 True (p_request pending) 0 0 resumed =
     (Inr 2,
      snd (receive three_hops
             \<lparr>method = ''GET'', url = demo_URL ''http://a.example/z'',
               headers = headers post_x, body = Bytes ''''\<rparr> 0
             (set_add 0 (demo_URL ''http://a.example/z'')
                (list_append 0 1 (snd (receive three_hops (p_request pending) 0 resumed))))))"
proof -
  let ?z = "\<lparr>method = ''GET'', url = demo_URL ''http://a.example/z'',
              headers = headers post_x, body = Bytes ''''\<rparr>"
  let ?w = "set_add 0 (demo_URL ''http://a.example/z'')
              (list_append 0 1 (snd (receive three_hops (p_request pending) 0 resumed)))"
  have "send_loop three_hops demo 20 True (p_request pending) 0 0 resumed =
          send_loop three_hops demo 20 True ?z 0 0
            (set_add 0 (url ?z)
               (list_append 0 (n_resps resumed)
                  (snd (receive three_hops (p_request pending) 0 resumed))))"
    by (rule send_loop_follow)
       (simp_all add: three_hops_replies build_on_three_hops_next reply_fields resumed_fields
          example_urls)
  then have 1: "send_loop three_hops demo 20 True (p_request pending) 0 0 resumed =
                  send_loop three_hops demo 20 True ?z 0 0 ?w"
    by (simp add: resumed_fields)
  have "send_loop three_hops demo 20 True ?z 0 0 ?w =
          (Inr (n_resps ?w), snd (receive three_hops ?z 0 ?w))"
    by (rule send_loop_final) (simp add: three_hops_last reply_fields)
  then have 2: "send_loop three_hops demo 20 True ?z 0 0 ?w =
                  (Inr 2, snd (receive three_hops ?z 0 ?w))"
    by (simp add: world_fields resumed_fields)
  from 1 2 show ?thesis by simp
qed

lemma resumed_automatic:
  "call_next three_hops demo 20 pending None (snd suspended) =
     send_loop three_hops demo 20 True (p_request pending) 0 0 resumed"
  by (simp add: call_next_eq pending_fields resumed_def)

lemma resumed_manual:
  "send_loop three_hops demo 20 False (p_request pending) 0 0 resumed =
     (Inr 1,
      set_next 1
        \<lparr>p_request = \<lparr>method = ''GET'', url = demo_URL ''http://a.example/z'',
                       headers = headers post_x, body = Bytes ''''\<rparr>,
         p_seen_urls = 0, p_history = 0\<rparr>
        (list_append 0 1 (snd (receive three_hops (p_request pending) 0 resumed))))"
proof -
  have "send_loop three_hops demo 20 False (p_request pending) 0 0 resumed =
     (Inr (n_resps resumed),
      set_next (n_resps resumed)
        \<lparr>p_request = \<lparr>method = ''GET'', url = demo_URL ''http://a.example/z'',
                       headers = headers post_x, body = Bytes ''''\<rparr>,
         p_seen_urls = 0, p_history = 0\<rparr>
        (list_append 0 (n_resps resumed) (snd (receive three_hops (p_request pending) 0 resumed))))"
    by (rule send_loop_manual)
       (simp_all add: three_hops_replies build_on_three_hops_next reply_fields)
  then show ?thesis by (simp add: resumed_fields)
qed

subsection \<open>History lists\<close>

lemma case_option_ex:
  "(case x of None \<Rightarrow> False | Some l \<Rightarrow> Q l) \<longleftrightarrow> (\<exists>l. x = Some l \<and> Q l)"
  by (cases x) simp_all

lemma chain_inv_iff:
  "chain_inv w h \<longleftrightarrow>
     h < n_lists w \<and>
     (\<forall>i < length (lists w h).
        lists w h ! i < n_resps w \<and>
        (\<exists>l. history (resps w (lists w h ! i)) = Some l \<and> l < n_lists w \<and> l \<noteq> h \<and>
             lists w l = take i (lists w h)))"
  by (simp add: chain_inv_def case_option_ex Ball_def)

lemma frame_refl: "frame w w h"
  by (simp add: frame_def)

lemma frame_trans: "frame w w1 h \<Longrightarrow> frame w1 w2 h \<Longrightarrow> frame w w2 h"
  by (auto simp: frame_def)

lemma chain_inv_keep:
  assumes inv: "chain_inv w h" and fr: "frame w w' h" and same: "lists w' h = lists w h"
  shows "chain_inv w' h"
  unfolding chain_inv_iff
proof (intro conjI allI impI)
  show "h < n_lists w'" using inv fr by (auto simp: chain_inv_iff frame_def)
next
  fix i assume "i < length (lists w' h)"
  then have i: "i < length (lists w h)" by (simp add: same)
  with inv obtain l where a: "lists w h ! i < n_resps w"
    "history (resps w (lists w h ! i)) = Some l" "l < n_lists w" "l \<noteq> h"
    "lists w l = take i (lists w h)"
    unfolding chain_inv_iff by blast
  from a fr show "lists w' h ! i < n_resps w'" by (simp add: same frame_def)
  from a fr have "history (resps w' (lists w' h ! i)) = Some l \<and> l < n_lists w' \<and> l \<noteq> h \<and>
      lists w' l = take i (lists w' h)"
    by (simp add: same frame_def)
  then show "\<exists>l. history (resps w' (lists w' h ! i)) = Some l \<and> l < n_lists w' \<and> l \<noteq> h \<and>
      lists w' l = take i (lists w' h)" ..
qed

lemma chain_inv_extend:
  assumes inv: "chain_inv w h" and fr: "frame w w' h" and ext: "lists w' h = lists w h @ [r]"
    and r: "r < n_resps w'" "history (resps w' r) = Some l" "l < n_lists w'" "l \<noteq> h"
      "lists w' l = lists w h"
  shows "chain_inv w' h"
  unfolding chain_inv_iff
proof (intro conjI allI impI)
  show "h < n_lists w'" using inv fr by (auto simp: chain_inv_iff frame_def)
next
  fix i assume i': "i < length (lists w' h)"
  show "lists w' h ! i < n_resps w'"
  proof (cases "i < length (lists w h)")
    case True
    with inv have "lists w h ! i < n_resps w" unfolding chain_inv_iff by blast
    with True fr show ?thesis by (simp add: ext nth_append frame_def)
  next
    case False
    with i' have "i = length (lists w h)" by (simp add: ext)
    with r show ?thesis by (simp add: ext)
  qed
  show "\<exists>l. history (resps w' (lists w' h ! i)) = Some l \<and> l < n_lists w' \<and> l \<noteq> h \<and>
      lists w' l = take i (lists w' h)"
  proof (cases "i < length (lists w h)")
    case True
    with inv obtain k where a: "lists w h ! i < n_resps w"
      "history (resps w (lists w h ! i)) = Some k" "k < n_lists w" "k \<noteq> h"
      "lists w k = take i (lists w h)"
      unfolding chain_inv_iff by blast
    from a fr True have "history (resps w' (lists w' h ! i)) = Some k \<and> k < n_lists w' \<and>
        k \<noteq> h \<and> lists w' k = take i (lists w' h)"
      by (simp add: ext nth_append frame_def)
    then show ?thesis ..
  next
    case False
    with i' have "i = length (lists w h)" by (simp add: ext)
    with r have "history (resps w' (lists w' h ! i)) = Some l \<and> l < n_lists w' \<and> l \<noteq> h \<and>
        lists w' l = take i (lists w' h)"
      by (simp add: ext)
    then show ?thesis ..
  qed
qed

lemma receive_frame:
  assumes "receive D req h w = (r, w1)"
  shows "frame w w1 h" and "frame w (list_append h r w1) h"
  using assms by (auto simp: frame_def receive_eq list_append_def)

lemma set_add_frame: "frame w (set_add s u w) h"
  by (simp add: frame_def set_add_def)

lemma set_next_frame: "frame w (set_next r p w) h"
  by (simp add: frame_def set_next_def)

lemma chain_inv_set_add: "chain_inv w h \<Longrightarrow> chain_inv (set_add s u w) h"
  by (rule chain_inv_keep [OF _ set_add_frame]) (simp_all add: set_add_def)

lemma chain_inv_set_next: "chain_inv w h \<Longrightarrow> chain_inv (set_next r p w) h"
  by (rule chain_inv_keep [OF _ set_next_frame]) (simp_all add: set_next_def)

lemma chain_inv_receive:
  assumes "chain_inv w h" and "receive D req h w = (r, w1)"
  shows "chain_inv w1 h"
  using assms
  by (intro chain_inv_keep [OF assms(1) receive_frame(1) [OF assms(2)]])
     (auto simp: chain_inv_iff receive_eq)

lemma chain_inv_list_append:
  assumes "chain_inv w h" and "receive D req h w = (r, w1)"
  shows "chain_inv (list_append h r w1) h"
  using assms
  by (intro chain_inv_extend [OF assms(1) receive_frame(2) [OF assms(2)], of _ "n_lists w"])
     (auto simp: chain_inv_iff receive_eq list_append_def)
lemma send_loop_history:
  "send_loop D U mx al req h s w = (res, w') \<Longrightarrow> chain_inv w h \<Longrightarrow>
     chain_inv w' h \<and> frame w w' h \<and> prefix (lists w h) (lists w' h) \<and>
     (\<forall>r. res = Inr r \<longrightarrow>
        history (resps w' r) \<noteq> Some h \<and>
        history_of w' r =
          Some (if is_redirect (received (resps w' r)) then butlast (lists w' h)
                else lists w' h))"
proof (induction rule: send_loop_induct)
  case (final req w r w1)
  from final(3) have h: "h < n_lists w" by (simp add: chain_inv_iff)
  from final(1,2) h have "history (resps w1 r) \<noteq> Some h"
    "history_of w1 r = Some (lists w1 h)" "lists w1 h = lists w h"
    by (auto simp: receive_eq history_of_def)
  with final chain_inv_receive [OF final(3,1)] receive_frame(1) [OF final(1)]
  show ?case by simp
next
  case (error req w r w1 e)
  from error(4) have h: "h < n_lists w" by (simp add: chain_inv_iff)
  with error(1) have "lists (list_append h r w1) h = lists w h @ [r]"
    by (auto simp: receive_eq list_append_def)
  with chain_inv_list_append [OF error(4,1)] receive_frame(2) [OF error(1)]
  show ?case by simp
next
  case (manual req w r w1 req')
  let ?p = "\<lparr>p_request = req', p_seen_urls = s, p_history = h\<rparr>"
  let ?w = "set_next r ?p (list_append h r w1)"
  from manual(5) have h: "h < n_lists w" by (simp add: chain_inv_iff)
  with manual(1,2) have "lists ?w h = lists w h @ [r]" "history (resps ?w r) \<noteq> Some h"
    "history_of ?w r = Some (lists w h)" "is_redirect (received (resps ?w r))"
    by (auto simp: receive_eq list_append_def set_next_def history_of_def)
  with chain_inv_set_next [OF chain_inv_list_append [OF manual(5,1)], of r ?p]
    frame_trans [OF receive_frame(2) [OF manual(1)] set_next_frame, of r ?p]
  show ?case by simp
next
  case (too_many req w r w1 req')
  from too_many(6) have h: "h < n_lists w" by (simp add: chain_inv_iff)
  with too_many(1) have "lists (list_append h r w1) h = lists w h @ [r]"
    by (auto simp: receive_eq list_append_def)
  with chain_inv_list_append [OF too_many(6,1)] receive_frame(2) [OF too_many(1)]
  show ?case by simp
next
  case (loop req w r w1 req')
  from loop(7) have h: "h < n_lists w" by (simp add: chain_inv_iff)
  with loop(1) have "lists (list_append h r w1) h = lists w h @ [r]"
    by (auto simp: receive_eq list_append_def)
  with chain_inv_list_append [OF loop(7,1)] receive_frame(2) [OF loop(1)]
  show ?case by simp
next
  case (follow req w r w1 req')
  let ?w = "set_add s (url req') (list_append h r w1)"
  from follow(9) have h: "h < n_lists w" by (simp add: chain_inv_iff)
  with follow(1) have l: "lists ?w h = lists w h @ [r]"
    by (auto simp: receive_eq list_append_def set_add_def)
  have inv: "chain_inv ?w h"
    by (rule chain_inv_set_add [OF chain_inv_list_append [OF follow(9,1)]])
  have fr: "frame w ?w h"
    by (rule frame_trans [OF receive_frame(2) [OF follow(1)] set_add_frame])
  from follow(8) [OF inv] l fr show ?case
    by (auto intro: frame_trans elim: prefix_order.trans [rotated])
qed

text \<open>
  C8: the loop entered with accumulated history \<open>h\<close>, in a world where every response
  in \<open>h\<close> has a history list of its own that holds the responses before it. When the
  loop ends this still holds, so the i-th response of the chain has the i responses before
  it as its history, in order; the accumulated history has only grown at its end; the
  responses that were in it have the history list and the history they had; and a
  returned response has a history list other than \<open>h\<close> that holds the responses
  received before it: all of \<open>h\<close> for a final response, all but the response itself
  for a redirect returned without following.
\<close>

theorem history_is_copied:
  assumes "chain_inv w h" and "send_loop D U mx al req h s w = (res, w')"
  shows "chain_inv w' h \<and> prefix (lists w h) (lists w' h) \<and>
         (\<forall>i < length (lists w h).
            history (resps w' (lists w h ! i)) = history (resps w (lists w h ! i)) \<and>
            history_of w' (lists w h ! i) = Some (take i (lists w h))) \<and>
         (\<forall>i < length (lists w' h).
            history (resps w' (lists w' h ! i)) \<noteq> Some h \<and>
            history_of w' (lists w' h ! i) = Some (take i (lists w' h))) \<and>
         (\<forall>r. res = Inr r \<longrightarrow>
            history (resps w' r) \<noteq> Some h \<and>
            history_of w' r =
              Some (if is_redirect (received (resps w' r)) then butlast (lists w' h)
                    else lists w' h))"
proof -
  from send_loop_history [OF assms(2,1)]
  have inv: "chain_inv w' h" and fr: "frame w w' h"
    and pre: "prefix (lists w h) (lists w' h)"
    and ret: "\<forall>r. res = Inr r \<longrightarrow>
            history (resps w' r) \<noteq> Some h \<and>
            history_of w' r =
              Some (if is_redirect (received (resps w' r)) then butlast (lists w' h)
                    else lists w' h)"
    by blast+
  have old: "\<forall>i < length (lists w h).
            history (resps w' (lists w h ! i)) = history (resps w (lists w h ! i)) \<and>
            history_of w' (lists w h ! i) = Some (take i (lists w h))"
  proof (intro allI impI)
    fix i assume i: "i < length (lists w h)"
    with assms(1) obtain l where a: "lists w h ! i < n_resps w"
      "history (resps w (lists w h ! i)) = Some l" "l < n_lists w" "l \<noteq> h"
      "lists w l = take i (lists w h)"
      unfolding chain_inv_iff by blast
    with fr show "history (resps w' (lists w h ! i)) = history (resps w (lists w h ! i)) \<and>
            history_of w' (lists w h ! i) = Some (take i (lists w h))"
      by (simp add: frame_def history_of_def)
  qed
  have new: "\<forall>i < length (lists w' h).
            history (resps w' (lists w' h ! i)) \<noteq> Some h \<and>
            history_of w' (lists w' h ! i) = Some (take i (lists w' h))"
    using inv unfolding chain_inv_iff by (auto simp: history_of_def)
  from inv pre old new ret show ?thesis by blast
qed

theorem history_is_copied_witness:
  "chain_inv resumed 0 \<and>
   chain_inv (snd (send_loop three_hops demo 20 True (p_request pending) 0 0 resumed)) 0 \<and>
   lists resumed 0 = [0] \<and>
   lists (snd (send_loop three_hops demo 20 True (p_request pending) 0 0 resumed)) 0 = [0, 1] \<and>
   history_of (snd (send_loop three_hops demo 20 True (p_request pending) 0 0 resumed)) 0 =
     Some []"
proof -
  have h: "chain_inv resumed 0"
    by (simp add: chain_inv_def resumed_fields resumed_def suspended_eq world_fields)
  have e: "send_loop three_hops demo 20 True (p_request pending) 0 0 resumed =
             (fst (send_loop three_hops demo 20 True (p_request pending) 0 0 resumed),
              snd (send_loop three_hops demo 20 True (p_request pending) 0 0 resumed))"
    by simp
  have l: "lists resumed 0 = [0]"
    "lists (snd (send_loop three_hops demo 20 True (p_request pending) 0 0 resumed)) 0 = [0, 1]"
    by (simp_all add: resumed_run world_fields resumed_fields)
  from history_is_copied [OF h e] h l show ?thesis by simp
qed

text \<open>
  Both ways into the loop keep the state that C8 is about: a call that is given no
  history starts from a new empty list, and a call of \<^verbatim>\<open>response.next\<close> continues
  with the list it holds.
\<close>

lemma send_history:
  assumes "opt_history opts = None" and "send D U mx opts req w = (res, w')"
  shows "chain_inv w' (n_lists w)"
proof -
  define w0 where "w0 = snd (new_list [] w)"
  define s where "s = (case opt_seen_urls opts of None \<Rightarrow> n_sets w0 | Some s \<Rightarrow> s)"
  define w1 where "w1 = set_add s (url req)
    (case opt_seen_urls opts of None \<Rightarrow> snd (new_set {} w0) | Some s \<Rightarrow> w0)"
  have run: "send_loop D U mx (case opt_allow_redirects opts of None \<Rightarrow> True | Some b \<Rightarrow> b)
               req (n_lists w) s w1 = (res, w')"
    using assms
    by (cases "opt_seen_urls opts")
       (simp_all add: send_def w0_def s_def w1_def new_list_def new_set_def)
  have "chain_inv w1 (n_lists w)"
    by (cases "opt_seen_urls opts")
       (simp_all add: chain_inv_iff w1_def w0_def world_fields)
  with send_loop_history [OF run] show ?thesis by simp
qed

lemma call_next_history:
  assumes "chain_inv w (p_history p)" and "call_next D U mx p allow w = (res, w')"
  shows "chain_inv w' (p_history p)"
  using send_loop_history [OF assms(2) [unfolded call_next_eq]] chain_inv_set_add [OF assms(1)]
  by simp

subsection \<open>The continuation\<close>

lemma forget_next_fields [simp]:
  "lists (forget_next a w) = lists w" "n_lists (forget_next a w) = n_lists w"
  "sets (forget_next a w) = sets w" "n_sets (forget_next a w) = n_sets w"
  "n_resps (forget_next a w) = n_resps w" "sent (forget_next a w) = sent w"
  "received (resps (forget_next a w) r) = received (resps w r)"
  by (simp_all add: forget_next_def)

lemma forget_next_receive:
  assumes "receive D req h w = (r, w1)" and "a < n_resps w"
  shows "receive D req h (forget_next a w) = (r, forget_next a w1)"
  using assms by (auto simp: receive_eq forget_next_def fun_upd_twist)

lemma forget_next_list_append:
  "list_append h r (forget_next a w) = forget_next a (list_append h r w)"
  by (simp add: list_append_def forget_next_def)

lemma forget_next_set_add:
  "set_add s u (forget_next a w) = forget_next a (set_add s u w)"
  by (simp add: set_add_def forget_next_def)

lemma forget_next_set_next:
  "a \<noteq> r \<Longrightarrow> set_next r p (forget_next a w) = forget_next a (set_next r p w)"
  by (simp add: set_next_def forget_next_def fun_upd_twist)

lemma send_loop_forget_next:
  "send_loop D U mx al req h s w = (res, w') \<Longrightarrow> a < n_resps w \<Longrightarrow>
     send_loop D U mx al req h s (forget_next a w) = (res, forget_next a w')"
proof (induction rule: send_loop_induct)
  case (final req w r w1)
  from forget_next_receive [OF final(1,3)] final(2) show ?case
    by (simp add: send_loop.simps [of _ _ _ _ req h s "forget_next a w"])
next
  case (error req w r w1 e)
  from forget_next_receive [OF error(1,4)] error(2,3) show ?case
    by (simp add: send_loop.simps [of _ _ _ _ req h s "forget_next a w"] forget_next_list_append)
next
  case (manual req w r w1 req')
  from manual(1,5) have "a \<noteq> r" by (auto simp: receive_eq)
  with forget_next_receive [OF manual(1,5)] manual(2,3,4) show ?case
    by (simp add: send_loop.simps [of _ _ _ _ req h s "forget_next a w"] forget_next_list_append
          forget_next_set_next)
next
  case (too_many req w r w1 req')
  from forget_next_receive [OF too_many(1,6)] too_many(2-5) show ?case
    by (simp add: send_loop.simps [of _ _ _ _ req h s "forget_next a w"] forget_next_list_append
          list_append_fields)
next
  case (loop req w r w1 req')
  from forget_next_receive [OF loop(1,7)] loop(2-6) show ?case
    by (simp add: send_loop.simps [of _ _ _ _ req h s "forget_next a w"] forget_next_list_append
          list_append_fields)
next
  case (follow req w r w1 req')
  from follow(1,9) have "a < n_resps (set_add s (url req') (list_append h r w1))"
    by (auto simp: receive_eq list_append_fields set_add_fields)
  from follow(8) [OF this] forget_next_receive [OF follow(1,9)] follow(2-6) show ?case
    by (simp add: send_loop.simps [of _ _ _ _ req h s "forget_next a w"] forget_next_list_append
          forget_next_set_add list_append_fields)
qed

lemma receive_fields:
  assumes "receive D req h w = (r, w1)"
  shows "r = n_resps w" "n_resps w1 = Suc (n_resps w)" "n_lists w1 = Suc (n_lists w)"
    "sets w1 = sets w" "n_sets w1 = n_sets w" "sent w1 = sent w @ [req]"
    "lists w1 = (lists w)(n_lists w := lists w h)"
    "resps w1 = (resps w)(n_resps w :=
        \<lparr>received = D (sent w) req, history = Some (n_lists w), resp_next = None\<rparr>)"
  using assms unfolding receive_eq by auto

lemma set_next_set_add: "set_add s u (set_next r p w) = set_next r p (set_add s u w)"
  by (simp add: set_add_def set_next_def)

lemma resp_next_None_update:
  "resp_next x = None \<Longrightarrow> x\<lparr>resp_next := None\<rparr> = x"
  by (cases x) simp

lemma forget_next_set_next_same:
  "resp_next (resps w r) = None \<Longrightarrow> forget_next r (set_next r p w) = w"
  by (simp add: forget_next_def set_next_def resp_next_None_update)

lemma send_loop_prefix:
  "send_loop D U mx al req h s w = (res, w') \<Longrightarrow> prefix (lists w h) (lists w' h)"
proof (induction rule: send_loop_induct)
  case (follow req w r w1 req')
  have "prefix (lists w h) (lists (set_add s (url req') (list_append h r w1)) h)"
    by (simp add: receive_fields [OF follow(1)] world_fields)
  then show ?case using follow(8) by (rule prefix_order.trans)
qed (simp_all add: receive_eq world_fields)

lemma same_but_next_refl: "same_but_next w w"
  by (simp add: same_but_next_def)

lemma same_but_next_receive:
  assumes "same_but_next wm w"
  shows "fst (receive D req h wm) = fst (receive D req h w)"
    and "same_but_next (snd (receive D req h wm)) (snd (receive D req h w))"
  using assms by (simp_all add: same_but_next_def receive_eq)

lemma same_but_next_list_append:
  "same_but_next wm w \<Longrightarrow> same_but_next (list_append h r wm) (list_append h r w)"
  by (simp add: same_but_next_def world_fields)

lemma same_but_next_set_add:
  "same_but_next wm w \<Longrightarrow> same_but_next (set_add s u wm) (set_add s u w)"
  by (simp add: same_but_next_def world_fields)

lemma same_but_next_set_next:
  "same_but_next wm w \<Longrightarrow> same_but_next (set_next r p wm) w"
  by (simp add: same_but_next_def world_fields)

lemma resume_final:
  "resp_next (resps w r) = None \<Longrightarrow> resume D U mx n (Inr r, w) = ([], Inr r, w)"
  by (cases n) simp_all

lemma manual_steps:
  "send_loop D U mx True req h s w = (res, w') \<Longrightarrow> res = Inr rf \<Longrightarrow> same_but_next wm w \<Longrightarrow>
   length (lists w' h) \<le> length (lists w h) + n \<Longrightarrow>
     \<exists>wm'. resume D U mx n (send_loop D U mx False req h s wm) =
             (drop (length (lists w h)) (lists w' h), Inr rf, wm') \<and>
           resp_next (resps wm' rf) = None \<and> same_but_next wm' w'"
proof (induction arbitrary: wm n rule: send_loop_induct)
  case (final req w r w1)
  have s: "sent wm = sent w" using final(4) by (simp add: same_but_next_def)
  from final(1,2) have nr: "\<not> is_redirect (D (sent w) req)" by (auto simp: receive_eq)
  have m: "send_loop D U mx False req h s wm = (Inr (n_resps wm), snd (receive D req h wm))"
    by (rule send_loop_final) (simp add: s nr)
  have r: "n_resps wm = r" "w1 = snd (receive D req h w)"
    using final(1,4) by (auto simp: receive_eq same_but_next_def)
  have nn: "resp_next (resps (snd (receive D req h wm)) r) = None"
    by (simp add: receive_snd_fields r(1))
  then have "resume D U mx n (send_loop D U mx False req h s wm) =
               ([], Inr r, snd (receive D req h wm))"
    by (simp add: m r(1) resume_final)
  moreover have "lists w1 h = lists w h"
    by (simp add: receive_fields [OF final(1)])
  moreover have "same_but_next (snd (receive D req h wm)) w1"
    unfolding r(2) by (rule same_but_next_receive(2) [OF final(4)])
  ultimately show ?case using final(3) nn by auto
next
  case (follow req w r w1 req')
  let ?p = "\<lparr>p_request = req', p_seen_urls = s, p_history = h\<rparr>"
  let ?wn = "set_add s (url req') (list_append h r w1)"
  let ?wm2 = "set_next r ?p (list_append h r (snd (receive D req h wm)))"
  have s: "sent wm = sent w" "n_resps wm = r" "w1 = snd (receive D req h w)"
    using follow(1,10) by (auto simp: receive_eq same_but_next_def)
  from follow(1,2,3) have red: "is_redirect (D (sent w) req)"
    and b: "build_redirect_request U req (D (sent w) req) = Inr req'"
    by (auto simp: receive_eq)
  have m: "send_loop D U mx False req h s wm = (Inr r, ?wm2)"
    using send_loop_manual [of D wm req U req' mx h s] red b by (simp add: s)
  have ln: "lists ?wn h = lists w h @ [r]"
    by (simp add: receive_fields [OF follow(1)] world_fields)
  have pre: "prefix (lists w h @ [r]) (lists w' h)"
    using send_loop_prefix [OF follow(7)] by (simp add: ln)
  then obtain zs where zs: "lists w' h = lists w h @ [r] @ zs"
    by (auto simp: prefix_def)
  with follow(11) obtain n' where n: "n = Suc n'" by (cases n) auto
  have rel: "same_but_next (set_add s (url req') ?wm2) ?wn"
    unfolding s(3)
    by (intro same_but_next_set_add same_but_next_set_next same_but_next_list_append
          same_but_next_receive(2) follow(10))
  have fuel: "length (lists w' h) \<le> length (lists ?wn h) + n'"
    using follow(11) by (simp add: ln n)
  from follow(8) [OF follow(9) rel fuel] obtain wm' where
    ih: "resume D U mx n' (send_loop D U mx False req' h s (set_add s (url req') ?wm2)) =
           (drop (length (lists ?wn h)) (lists w' h), Inr rf, wm')"
    and rel': "resp_next (resps wm' rf) = None" "same_but_next wm' w'"
    by blast
  have nx: "resp_next (resps ?wm2 r) = Some ?p"
    by (simp add: world_fields)
  have "resume D U mx n (send_loop D U mx False req h s wm) =
          (r # drop (length (lists ?wn h)) (lists w' h), Inr rf, wm')"
    by (simp add: m n nx call_next_eq ih)
  moreover have "r # drop (length (lists ?wn h)) (lists w' h) =
                   drop (length (lists w h)) (lists w' h)"
    by (simp add: ln zs)
  ultimately show ?case using rel' by auto
qed simp_all

text \<open>
  C1, amended: a call without following whose first response is a redirect returns that
  response with \<^verbatim>\<open>response.next\<close> set, when the next request can be built. The
  continuation holds the next request, the accumulated history, which consists of the
  returned response, and the set of seen URLs, which consists of the URL of the first
  request; it does not hold the mode. Calling it adds the URL of the next request to the
  set of seen URLs and enters the loop with the next request, in the mode given with the
  call, following redirects when no mode is given. A continuation called with following
  switched off again, whose request is answered by a redirect from which the next request
  can be built, returns that redirect with a continuation of its own, which holds the next
  request and the same history and set of seen URLs. Whenever the call that follows
  redirects returns a response, a caller that steps through the chain, calling each
  continuation with following switched off, goes through the responses of the history of
  that call, in order, ends with its final response, which has no continuation, and leaves
  the same requests sent, the same responses and the same histories. When the limit is at
  least 1 and the next URL is not the URL of the first request, so that the checks of a
  following call pass at the first redirect, a call that follows redirects gives what
  calling the continuation without a mode gives, up to \<^verbatim>\<open>response.next\<close> of the first
  response.
\<close>

theorem deferred_continuation:
  assumes man: "send D U mx manual req w = (Inr r, w1)"
    and red: "is_redirect (received (resps w1 r))"
  shows "\<exists>p. resp_next (resps w1 r) = Some p \<and>
             build_redirect_request U req (received (resps w1 r)) = Inr (p_request p) \<and>
             lists w1 (p_history p) = [r] \<and> sets w1 (p_seen_urls p) = {url req} \<and>
             (\<forall>allow. call_next D U mx p allow w1 =
                send_loop D U mx (case allow of None \<Rightarrow> True | Some b \<Rightarrow> b)
                  (p_request p) (p_history p) (p_seen_urls p)
                  (set_add (p_seen_urls p) (url (p_request p)) w1)) \<and>
             (\<forall>q wa nxt.
                is_redirect (D (sent wa) (p_request q)) \<and>
                build_redirect_request U (p_request q) (D (sent wa) (p_request q)) = Inr nxt \<longrightarrow>
                (\<exists>wb. call_next D U mx q (Some False) wa = (Inr (n_resps wa), wb) \<and>
                      received (resps wb (n_resps wa)) = D (sent wa) (p_request q) \<and>
                      resp_next (resps wb (n_resps wa)) =
                        Some \<lparr>p_request = nxt, p_seen_urls = p_seen_urls q,
                              p_history = p_history q\<rparr>)) \<and>
             (\<forall>rf w' n.
                send D U mx automatic req w = (Inr rf, w') \<and>
                length (lists w' (n_lists w)) \<le> n \<longrightarrow>
                (\<exists>wm. resume D U mx n (Inr r, w1) = (lists w' (n_lists w), Inr rf, wm) \<and>
                      resp_next (resps wm rf) = None \<and> same_but_next wm w')) \<and>
             (1 \<le> mx \<and> url (p_request p) \<noteq> url req \<longrightarrow>
                send D U mx automatic req w =
                  map_prod id (forget_next r) (call_next D U mx p None w1))"
proof -
  define h where "h = n_lists w"
  define s where "s = n_sets w"
  define w0 where "w0 = set_add s (url req) (snd (new_set {} (snd (new_list [] w))))"
  have run: "send_loop D U mx False req h s w0 = (Inr r, w1)"
    using man by (simp add: send_def manual_def new_list_def new_set_def h_def s_def w0_def)
  have auto_run: "send D U mx automatic req w = send_loop D U mx True req h s w0"
    by (simp add: send_def automatic_def new_list_def new_set_def h_def s_def w0_def)
  have w0: "lists w0 h = []" "sets w0 s = {url req}" "h < n_lists w0"
    by (simp_all add: w0_def h_def s_def new_list_def new_set_def set_add_def)
  obtain r0 wr where rcv: "receive D req h w0 = (r0, wr)"
    by (cases "receive D req h w0")
  have wr: "lists wr h = []" "sets wr s = {url req}" "r0 < n_resps wr"
    "resp_next (resps wr r0) = None"
    using w0 by (simp_all add: receive_fields [OF rcv])
  have redr: "is_redirect (received (resps wr r0))"
  proof (rule ccontr)
    assume n: "\<not> is_redirect (received (resps wr r0))"
    with run rcv have "r = r0" "w1 = wr"
      by (simp_all add: send_loop.simps [of _ _ _ _ req h s w0])
    with red n show False by simp
  qed
  obtain req' where b: "build_redirect_request U req (received (resps wr r0)) = Inr req'"
  proof (cases "build_redirect_request U req (received (resps wr r0))")
    case (Inl e)
    with run rcv redr show ?thesis
      by (simp add: send_loop.simps [of _ _ _ _ req h s w0])
  next
    case (Inr req')
    then show ?thesis by (rule that)
  qed
  define p where "p = \<lparr>p_request = req', p_seen_urls = s, p_history = h\<rparr>"
  have p: "p_request p = req'" "p_seen_urls p = s" "p_history p = h"
    by (simp_all add: p_def)
  from run rcv redr b have res: "r = r0" "w1 = set_next r0 p (list_append h r0 wr)"
    by (auto simp: send_loop.simps [of _ _ _ _ req h s w0] p_def)
  have 1: "resp_next (resps w1 r) = Some p"
    by (simp add: res set_next_def)
  have 2: "build_redirect_request U req (received (resps w1 r)) = Inr (p_request p)"
    using b by (simp add: res set_next_def list_append_def p)
  have 3: "lists w1 (p_history p) = [r]" "sets w1 (p_seen_urls p) = {url req}"
    using wr by (simp_all add: res set_next_def list_append_def p)
  have 4: "\<forall>allow. call_next D U mx p allow w1 =
                send_loop D U mx (case allow of None \<Rightarrow> True | Some b \<Rightarrow> b)
                  (p_request p) (p_history p) (p_seen_urls p)
                  (set_add (p_seen_urls p) (url (p_request p)) w1)"
    by (simp add: call_next_def send_def)
  have 5: "send D U mx automatic req w =
             map_prod id (forget_next r) (call_next D U mx p None w1)"
    if lim: "1 \<le> mx" and new: "url (p_request p) \<noteq> url req"
  proof -
    let ?wm = "set_add s (url req') (list_append h r0 wr)"
    have len: "lists (list_append h r0 wr) h = [r0]" "sets (list_append h r0 wr) s = {url req}"
      using wr by (simp_all add: list_append_fields)
    from rcv redr b lim new len
    have a: "send_loop D U mx True req h s w0 = send_loop D U mx True req' h s ?wm"
      by (simp add: send_loop.simps [of _ _ _ _ req h s w0] p)
    obtain res' w'' where c: "send_loop D U mx True req' h s (set_next r0 p ?wm) = (res', w'')"
      by (cases "send_loop D U mx True req' h s (set_next r0 p ?wm)")
    have n: "r0 < n_resps (set_next r0 p ?wm)"
      using wr by (simp add: set_next_def set_add_def list_append_def)
    have m: "resp_next (resps ?wm r0) = None"
      using wr by (simp add: set_add_def list_append_def)
    from send_loop_forget_next [OF c n]
    have "send_loop D U mx True req' h s ?wm = (res', forget_next r0 w'')"
      by (simp add: forget_next_set_next_same [OF m])
    moreover have "call_next D U mx p None w1 = (res', w'')"
      using c by (simp add: call_next_def send_def p res(2) set_next_set_add)
    ultimately show ?thesis by (simp add: auto_run a res(1))
  qed
  have 6: "\<exists>wb. call_next D U mx q (Some False) wa = (Inr (n_resps wa), wb) \<and>
                received (resps wb (n_resps wa)) = D (sent wa) (p_request q) \<and>
                resp_next (resps wb (n_resps wa)) =
                  Some \<lparr>p_request = nxt, p_seen_urls = p_seen_urls q, p_history = p_history q\<rparr>"
    if "is_redirect (D (sent wa) (p_request q)) \<and>
        build_redirect_request U (p_request q) (D (sent wa) (p_request q)) = Inr nxt"
    for q wa nxt
    using that
      send_loop_manual [of D "set_add (p_seen_urls q) (url (p_request q)) wa" "p_request q" U nxt
        mx "p_history q" "p_seen_urls q"]
    by (simp add: call_next_eq world_fields)
  have 7: "\<exists>wm. resume D U mx n (Inr r, w1) = (lists w' (n_lists w), Inr rf, wm) \<and>
                resp_next (resps wm rf) = None \<and> same_but_next wm w'"
    if "send D U mx automatic req w = (Inr rf, w') \<and> length (lists w' (n_lists w)) \<le> n"
    for rf w' n
  proof -
    from that have a: "send_loop D U mx True req h s w0 = (Inr rf, w')"
      by (simp add: auto_run)
    have l: "length (lists w' h) \<le> length (lists w0 h) + n"
      using that by (simp add: w0(1) h_def)
    from manual_steps [OF a refl same_but_next_refl l] obtain wm where
      "resume D U mx n (send_loop D U mx False req h s w0) =
         (drop (length (lists w0 h)) (lists w' h), Inr rf, wm)"
      and e: "resp_next (resps wm rf) = None" "same_but_next wm w'"
      by blast
    then have "resume D U mx n (Inr r, w1) = (lists w' h, Inr rf, wm)"
      by (simp add: run w0(1))
    with e show ?thesis unfolding h_def by blast
  qed
  have 8: "1 \<le> mx \<and> url (p_request p) \<noteq> url req \<longrightarrow>
             send D U mx automatic req w =
               map_prod id (forget_next r) (call_next D U mx p None w1)"
    using 5 by simp
  from 6 have 9: "\<forall>q wa nxt.
      is_redirect (D (sent wa) (p_request q)) \<and>
      build_redirect_request U (p_request q) (D (sent wa) (p_request q)) = Inr nxt \<longrightarrow>
      (\<exists>wb. call_next D U mx q (Some False) wa = (Inr (n_resps wa), wb) \<and>
            received (resps wb (n_resps wa)) = D (sent wa) (p_request q) \<and>
            resp_next (resps wb (n_resps wa)) =
              Some \<lparr>p_request = nxt, p_seen_urls = p_seen_urls q, p_history = p_history q\<rparr>)"
    by (intro allI impI)
  from 7 have 10: "\<forall>rf w' n.
      send D U mx automatic req w = (Inr rf, w') \<and> length (lists w' (n_lists w)) \<le> n \<longrightarrow>
      (\<exists>wm. resume D U mx n (Inr r, w1) = (lists w' (n_lists w), Inr rf, wm) \<and>
            resp_next (resps wm rf) = None \<and> same_but_next wm w')"
    by (intro allI impI)
  show ?thesis
    by (intro exI [of _ p] conjI) (rule 1 2 3 4 8 9 10)+
qed

theorem deferred_continuation_witness:
  "send three_hops demo 20 manual post_x start = (Inr 0, snd suspended) \<and>
   is_redirect (received (resps (snd suspended) 0)) \<and>
   resp_next (resps (snd suspended) 0) = Some pending \<and>
   send three_hops demo 20 automatic post_x start =
     map_prod id (forget_next 0) (call_next three_hops demo 20 pending None (snd suspended)) \<and>
   (\<exists>wb. call_next three_hops demo 20 pending (Some False) (snd suspended) = (Inr 1, wb) \<and>
         received (resps wb 1) = redirect_to 302 ''/z'' \<and>
         resp_next (resps wb 1) =
           Some \<lparr>p_request = \<lparr>method = ''GET'', url = demo_URL ''http://a.example/z'',
                               headers = headers post_x, body = Bytes ''''\<rparr>,
                 p_seen_urls = 0, p_history = 0\<rparr>) \<and>
   (\<exists>wm. resume three_hops demo 20 2 (Inr 0, snd suspended) = ([0, 1], Inr 2, wm) \<and>
         resp_next (resps wm 2) = None)"
proof -
  let ?z = "\<lparr>method = ''GET'', url = demo_URL ''http://a.example/z'',
              headers = headers post_x, body = Bytes ''''\<rparr>"
  let ?W = "snd (receive three_hops ?z 0
             (set_add 0 (demo_URL ''http://a.example/z'')
                (list_append 0 1 (snd (receive three_hops (p_request pending) 0 resumed)))))"
  have f: "fst suspended = Inr 0" by (simp add: suspended_eq)
  have "send three_hops demo 20 manual post_x start = (fst suspended, snd suspended)"
    by (simp add: suspended_def)
  with f have m: "send three_hops demo 20 manual post_x start = (Inr 0, snd suspended)"
    by simp
  have r: "is_redirect (received (resps (snd suspended) 0))"
    by (simp add: suspended_eq world_fields three_hops_replies reply_fields)
  have p: "resp_next (resps (snd suspended) 0) = Some pending"
    by (simp add: suspended_eq world_fields)
  have u: "url (p_request pending) \<noteq> url post_x"
    by (simp add: example_urls)
  from deferred_continuation [OF m r] p obtain
    a: "1 \<le> (20::int) \<and> url (p_request pending) \<noteq> url post_x \<longrightarrow>
          send three_hops demo 20 automatic post_x start =
            map_prod id (forget_next 0)
              (call_next three_hops demo 20 pending None (snd suspended))"
    and b: "\<And>q wa nxt. is_redirect (three_hops (sent wa) (p_request q)) \<and>
          build_redirect_request demo (p_request q) (three_hops (sent wa) (p_request q)) =
            Inr nxt \<longrightarrow>
          (\<exists>wb. call_next three_hops demo 20 q (Some False) wa = (Inr (n_resps wa), wb) \<and>
                received (resps wb (n_resps wa)) = three_hops (sent wa) (p_request q) \<and>
                resp_next (resps wb (n_resps wa)) =
                  Some \<lparr>p_request = nxt, p_seen_urls = p_seen_urls q,
                        p_history = p_history q\<rparr>)"
    and c: "\<And>rf w' n. send three_hops demo 20 automatic post_x start = (Inr rf, w') \<and>
          length (lists w' (n_lists start)) \<le> n \<longrightarrow>
          (\<exists>wm. resume three_hops demo 20 n (Inr 0, snd suspended) =
                  (lists w' (n_lists start), Inr rf, wm) \<and>
                resp_next (resps wm rf) = None \<and> same_but_next wm w')"
    by auto
  from a u have au: "send three_hops demo 20 automatic post_x start =
      map_prod id (forget_next 0) (call_next three_hops demo 20 pending None (snd suspended))"
    by simp
  have n1: "n_resps (snd suspended) = 1"
    by (simp add: suspended_eq world_fields)
  from b [of "snd suspended" pending ?z]
  have st: "\<exists>wb. call_next three_hops demo 20 pending (Some False) (snd suspended) = (Inr 1, wb) \<and>
         received (resps wb 1) = redirect_to 302 ''/z'' \<and>
         resp_next (resps wb 1) = Some \<lparr>p_request = ?z, p_seen_urls = 0, p_history = 0\<rparr>"
    by (simp add: three_hops_replies reply_fields build_on_three_hops_next n1 pending_fields)
  have fin: "send three_hops demo 20 automatic post_x start = (Inr 2, forget_next 0 ?W)"
    unfolding au resumed_automatic resumed_run by simp
  have hl: "lists (forget_next 0 ?W) (n_lists start) = [0, 1]"
    by (simp add: world_fields resumed_fields resumed_def suspended_eq)
  from c [of 2 "forget_next 0 ?W" 2] fin hl
  have "\<exists>wm. resume three_hops demo 20 2 (Inr 0, snd suspended) = ([0, 1], Inr 2, wm) \<and>
         resp_next (resps wm 2) = None"
    by auto
  with m r p au st show ?thesis by simp
qed

text \<open>
  The claim C1 as the specification words it, on \<open>three_hops\<close>: a call without following
  returns the 302 for \<^verbatim>\<open>/x\<close> with \<^verbatim>\<open>response.next\<close> set. Calling \<^verbatim>\<open>response.next\<close>
  follows the rest of the chain and returns the final 200 without a continuation;
  entering the loop again in the mode of the first call would return the 302 for
  \<^verbatim>\<open>/y\<close> with a continuation.
\<close>

theorem deferred_continuation_mode_counterexample:
  "outcome suspended = Inr (302, True) \<and>
   resp_next (resps (snd suspended) 0) = Some pending \<and>
   outcome (call_next three_hops demo 20 pending None (snd suspended)) = Inr (200, False) \<and>
   outcome (send_loop three_hops demo 20 False (p_request pending) (p_history pending)
              (p_seen_urls pending)
              (set_add (p_seen_urls pending) (url (p_request pending)) (snd suspended))) =
     Inr (302, True)"
proof -
  have a: "outcome suspended = Inr (302, True)"
    by (simp add: suspended_eq outcome_def world_fields three_hops_replies reply_fields)
  have b: "resp_next (resps (snd suspended) 0) = Some pending"
    by (simp add: suspended_eq world_fields)
  have c: "outcome (call_next three_hops demo 20 pending None (snd suspended)) =
             Inr (200, False)"
    unfolding resumed_automatic resumed_run
    by (simp add: outcome_def world_fields resumed_fields three_hops_last reply_fields)
  have d: "outcome (send_loop three_hops demo 20 False (p_request pending) 0 0 resumed) =
             Inr (302, True)"
    unfolding resumed_manual
    by (simp add: outcome_def world_fields resumed_fields three_hops_replies reply_fields)
  from a b c d show ?thesis
    by (simp add: pending_fields resumed_def)
qed

subsection \<open>The loop check\<close>

text \<open>
  On the path that follows redirects, from a new set of seen URLs, the check works: no
  URL is sent twice.
\<close>

lemma send_loop_seen:
  "send_loop D U mx True req h s w = (res, w') \<Longrightarrow>
   sent w = pre @ xs \<Longrightarrow> distinct (map url xs) \<Longrightarrow> url ` set xs \<subseteq> sets w s - {url req} \<Longrightarrow>
   url req \<in> sets w s \<Longrightarrow>
     \<exists>ys. sent w' = pre @ ys \<and> distinct (map url ys) \<and> url ` set ys \<subseteq> sets w' s"
proof (induction arbitrary: xs rule: send_loop_induct)
  case (final req w r w1)
  then show ?case by (auto simp: receive_fields [OF final(1)])
next
  case (error req w r w1 e)
  then show ?case by (auto simp: receive_fields [OF error(1)] list_append_fields)
next
  case (manual req w r w1 req')
  then show ?case by simp
next
  case (too_many req w r w1 req')
  then show ?case by (auto simp: receive_fields [OF too_many(1)] list_append_fields)
next
  case (loop req w r w1 req')
  then show ?case by (auto simp: receive_fields [OF loop(1)] list_append_fields)
next
  case (follow req w r w1 req')
  let ?w = "set_add s (url req') (list_append h r w1)"
  have "sent ?w = pre @ (xs @ [req])"
    using follow(9) by (simp add: receive_fields [OF follow(1)] world_fields)
  moreover have "distinct (map url (xs @ [req]))"
    using follow(10,11) by auto
  moreover have "url ` set (xs @ [req]) \<subseteq> sets ?w s - {url req'}"
    using follow(6,11,12) by (auto simp: receive_fields [OF follow(1)] world_fields)
  moreover have "url req' \<in> sets ?w s"
    by (simp add: world_fields)
  ultimately show ?case by (rule follow(8))
qed

lemma automatic_sends_distinct_urls:
  assumes "opt_allow_redirects opts \<noteq> Some False" and "opt_seen_urls opts = None"
    and "send D U mx opts req w = (res, w')"
  shows "\<exists>ys. sent w' = sent w @ ys \<and> distinct (map url ys)"
proof -
  define hw where "hw = (case opt_history opts of None \<Rightarrow> new_list [] w | Some h \<Rightarrow> (h, w))"
  define w1 where "w1 = set_add (n_sets w) (url req) (snd (new_set {} (snd hw)))"
  have al: "(case opt_allow_redirects opts of None \<Rightarrow> True | Some b \<Rightarrow> b) = True"
    using assms(1) by (cases "opt_allow_redirects opts") auto
  have run: "send_loop D U mx True req (fst hw) (n_sets w) w1 = (res, w')"
    using assms(2,3) al
    by (cases "opt_history opts")
       (simp_all add: send_def hw_def w1_def new_list_def new_set_def)
  have "sent w1 = sent w @ []" "url req \<in> sets w1 (n_sets w)"
    by (cases "opt_history opts"; simp add: hw_def w1_def world_fields)+
  from send_loop_seen [OF run this(1) _ _ this(2)] show ?thesis by auto
qed

lemma build_on_self_loop:
  "build_redirect_request demo post_x (redirect_to 302 ''http://a.example/x'') =
     Inr (p_request pending_x)"
  by code_simp

lemma looped_eq:
  "looped =
     (Inr 0, set_next 0 pending_x (list_append 0 0 (snd (receive self_loop post_x 0
        (set_add 0 (url post_x) (snd (new_set {} (snd (new_list [] start)))))))))"
proof -
  let ?w = "set_add 0 (url post_x) (snd (new_set {} (snd (new_list [] start))))"
  have p: "\<lparr>p_request = p_request pending_x, p_seen_urls = 0, p_history = 0\<rparr> = pending_x"
    by (simp add: pending_x_def)
  have m: "opt_history manual = None" "opt_seen_urls manual = None"
    "opt_allow_redirects manual = Some False"
    by (simp_all add: manual_def)
  have "send_loop self_loop demo 20 False post_x 0 0 ?w =
          (Inr (n_resps ?w),
           set_next (n_resps ?w)
             \<lparr>p_request = p_request pending_x, p_seen_urls = 0, p_history = 0\<rparr>
             (list_append 0 (n_resps ?w) (snd (receive self_loop post_x 0 ?w))))"
    by (rule send_loop_manual)
       (simp_all add: self_loop_def world_fields build_on_self_loop reply_fields)
  then show ?thesis
    unfolding looped_def send_fresh [OF m(1,2)]
    by (simp add: m(3) world_fields p)
qed

lemma looped_resumed:
  "call_next self_loop demo 20 pending_x None (snd looped) =
     (Inr 1,
      snd (receive self_loop (p_request pending_x) 0
             (set_add 0 (url (p_request pending_x)) (snd looped))))"
proof -
  let ?w = "set_add 0 (url (p_request pending_x)) (snd looped)"
  have "send_loop self_loop demo 20 True (p_request pending_x) 0 0 ?w =
          (Inr (n_resps ?w), snd (receive self_loop (p_request pending_x) 0 ?w))"
    by (rule send_loop_final) (simp add: self_loop_def looped_eq world_fields reply_fields)
  then show ?thesis
    by (simp add: call_next_eq pending_fields looped_eq world_fields)
qed

text \<open>
  C2, at an input where it fails: the request is for \<^verbatim>\<open>http://a.example/x\<close>, sent
  without following, and the transport answers with a 302 to the same URL. The next
  request has a URL that is in the set of seen URLs. Calling \<^verbatim>\<open>response.next\<close> sends
  it all the same: the transport gets two requests for the one URL, and the call returns
  its second answer instead of failing with \<open>RedirectLoop\<close>.
\<close>

theorem resume_sends_seen_url:
  "outcome looped = Inr (302, True) \<and>
   resp_next (resps (snd looped) 0) = Some pending_x \<and>
   url (p_request pending_x) \<in> sets (snd looped) (p_seen_urls pending_x) \<and>
   outcome (call_next self_loop demo 20 pending_x None (snd looped)) = Inr (200, False) \<and>
   map url (sent (snd (call_next self_loop demo 20 pending_x None (snd looped)))) =
     [demo_URL ''http://a.example/x'', demo_URL ''http://a.example/x'']"
proof -
  have a: "outcome looped = Inr (302, True)"
    by (simp add: looped_eq outcome_def world_fields self_loop_def reply_fields)
  have b: "resp_next (resps (snd looped) 0) = Some pending_x"
    by (simp add: looped_eq world_fields)
  have c: "url (p_request pending_x) \<in> sets (snd looped) (p_seen_urls pending_x)"
    by (simp add: looped_eq world_fields pending_fields example_urls)
  have d: "outcome (call_next self_loop demo 20 pending_x None (snd looped)) = Inr (200, False)"
    unfolding looped_resumed
    by (simp add: outcome_def world_fields looped_eq self_loop_def reply_fields)
  have e: "map url (sent (snd (call_next self_loop demo 20 pending_x None (snd looped)))) =
             [demo_URL ''http://a.example/x'', demo_URL ''http://a.example/x'']"
    unfolding looped_resumed
    by (simp add: world_fields looped_eq example_urls)
  from a b c d e show ?thesis by simp
qed

section \<open>Frame of \<^verbatim>\<open>redirect_headers\<close>\<close>

lemma redirect_headers_obj_eq:
  "redirect_headers_obj req a u st =
     (n_objs st,
      st\<lparr>objs := (objs st)(n_objs st :=
              (if origin u \<noteq> origin (url req) then delitem (objs st a) ''Authorization''
               else objs st a)),
         n_objs := Suc (n_objs st)\<rparr>)"
  by (simp add: redirect_headers_obj_def Headers_def delitem_obj_def)

text \<open>
  C9: \<open>redirect_headers\<close> returns a header object that did not exist before, holding
  the headers derived for the next request, and leaves the header object of the current
  request, as every other object that existed, as it was: the current request keeps its
  Authorization entries also when the next request loses them.
\<close>

theorem redirect_headers_frame:
  assumes "a < n_objs st" and "redirect_headers_obj req a u st = (b, st')"
  shows "b \<noteq> a \<and> objs st' a = objs st a \<and>
         (\<forall>c < n_objs st. objs st' c = objs st c) \<and>
         objs st' b = redirect_headers (req\<lparr>headers := objs st a\<rparr>) u"
  using assms by (auto simp: redirect_headers_obj_eq redirect_headers_def)

theorem redirect_headers_frame_witness:
  "0 < n_objs one_request \<and>
   origin (demo_URL ''http://b.example/y'') \<noteq> origin (url post_x) \<and>
   objs (snd (redirect_headers_obj post_x 0 (demo_URL ''http://b.example/y'') one_request)) 0 =
     [(''Authorization'', ''Basic abc''), (''Accept'', ''*/*'')] \<and>
   objs (snd (redirect_headers_obj post_x 0 (demo_URL ''http://b.example/y'') one_request))
     (fst (redirect_headers_obj post_x 0 (demo_URL ''http://b.example/y'') one_request)) =
     [(''Accept'', ''*/*'')]"
proof -
  have n: "0 < n_objs one_request" by (simp add: one_request_def)
  have o: "origin (demo_URL ''http://b.example/y'') \<noteq> origin (url post_x)" by code_simp
  have e: "redirect_headers_obj post_x 0 (demo_URL ''http://b.example/y'') one_request =
             (fst (redirect_headers_obj post_x 0 (demo_URL ''http://b.example/y'') one_request),
              snd (redirect_headers_obj post_x 0 (demo_URL ''http://b.example/y'') one_request))"
    by simp
  have h: "objs one_request 0 = [(''Authorization'', ''Basic abc''), (''Accept'', ''*/*'')]"
    by (simp add: one_request_def post_x_def)
  have r: "redirect_headers (post_x\<lparr>headers := objs one_request 0\<rparr>)
             (demo_URL ''http://b.example/y'') = [(''Accept'', ''*/*'')]"
    by code_simp
  from redirect_headers_frame [OF n e] n o h r show ?thesis by simp
qed

end
